theory Spec2Isabelle
  imports Main "HOL-Library.Multiset" "HOL-Library.List_Lexorder" "HOL-Library.Char_ord"
begin

section \<open>Python strings\<close>

text \<open>
  A Python \<open>str\<close> is a sequence of code points. It is modelled as a \<open>string\<close> whose
  characters are the code points below 256, so \<open>length\<close> counts code points as
  \<open>len\<close> does, and the order on strings (lexicographic over the code of each character)
  is the one Python compares strings with. The character classes below are those of
  CPython on that range: \<open>str.isspace\<close>, the pattern classes \<open>\d\<close> and \<open>\w\<close>
  of \<open>re\<close> on \<open>str\<close> patterns, and \<open>str.lower\<close>, which on this range maps one
  code point to one code point.
\<close>

definition code :: "char \<Rightarrow> nat" where
  "code c = of_char c"

definition isspace :: "char \<Rightarrow> bool" where
  "isspace c = (let n = code c in
     (9 \<le> n \<and> n \<le> 13) \<or> (28 \<le> n \<and> n \<le> 32) \<or> n = 133 \<or> n = 160)"

definition ascii_letter :: "char \<Rightarrow> bool" where
  "ascii_letter c = (let n = code c in (65 \<le> n \<and> n \<le> 90) \<or> (97 \<le> n \<and> n \<le> 122))"

definition isdigit :: "char \<Rightarrow> bool" where
  "isdigit c = (let n = code c in 48 \<le> n \<and> n \<le> 57)"

definition isword :: "char \<Rightarrow> bool" where
  "isword c = (let n = code c in
     ascii_letter c \<or> isdigit c \<or> n = 95 \<or>
     n = 170 \<or> n = 178 \<or> n = 179 \<or> n = 181 \<or> n = 185 \<or> n = 186 \<or>
     (188 \<le> n \<and> n \<le> 190) \<or> (192 \<le> n \<and> n \<le> 214) \<or>
     (216 \<le> n \<and> n \<le> 246) \<or> (248 \<le> n \<and> n \<le> 255))"

definition lower_char :: "char \<Rightarrow> char" where
  "lower_char c = (let n = code c in
     if (65 \<le> n \<and> n \<le> 90) \<or> (192 \<le> n \<and> n \<le> 222 \<and> n \<noteq> 215)
     then char_of (n + 32) else c)"

definition lower :: "string \<Rightarrow> string" where
  "lower s = map lower_char s"

definition lstrip_where :: "(char \<Rightarrow> bool) \<Rightarrow> string \<Rightarrow> string" where
  "lstrip_where p s = dropWhile p s"

definition rstrip_where :: "(char \<Rightarrow> bool) \<Rightarrow> string \<Rightarrow> string" where
  "rstrip_where p s = rev (dropWhile p (rev s))"

definition strip :: "string \<Rightarrow> string" where
  "strip s = rstrip_where isspace (lstrip_where isspace s)"

definition startswith :: "string \<Rightarrow> string \<Rightarrow> bool" where
  "startswith s p = (take (length p) s = p)"

definition endswith :: "string \<Rightarrow> string \<Rightarrow> bool" where
  "endswith s p = (length p \<le> length s \<and> drop (length s - length p) s = p)"

text \<open>\<open>p in s\<close> for strings: \<open>p\<close> occurs in \<open>s\<close> as a contiguous run.\<close>

fun contains :: "string \<Rightarrow> string \<Rightarrow> bool" where
  "contains p [] = (p = [])"
| "contains p (x # xs) = (startswith (x # xs) p \<or> contains p xs)"

text \<open>
  \<open>s.split(sep)\<close> for a one-character separator: the result is never empty, and an
  empty string splits into one empty piece.
\<close>

fun split :: "char \<Rightarrow> string \<Rightarrow> string list" where
  "split sep [] = [[]]"
| "split sep (x # xs) =
     (if x = sep then [] # split sep xs
      else (case split sep xs of
              [] \<Rightarrow> [[x]]
            | piece # pieces \<Rightarrow> (x # piece) # pieces))"

section \<open>Label validators (domain_cleaner.py, lines 63 to 92)\<close>

text \<open>
  Both validators return the pair \<open>(is_valid, reason)\<close>. The \<open>for\<close> loop over the labels
  is the recursion over the list that \<open>split\<close> returns; a \<open>return\<close> inside the loop
  ends it.
\<close>

type_synonym verdict = "bool \<times> string option"

fun length_loop :: "string list \<Rightarrow> verdict" where
  "length_loop [] = (True, None)"
| "length_loop (label # labels) =
     (if length label = 1 then (False, Some ''single character label'')
      else if length label > 63 then (False, Some ''label exceeds 63 characters'')
      else length_loop labels)"

definition is_valid_domain_length :: "string \<Rightarrow> verdict" where
  "is_valid_domain_length d = length_loop (split (CHR ''.'') d)"

fun hyphen_loop :: "string list \<Rightarrow> verdict" where
  "hyphen_loop [] = (True, None)"
| "hyphen_loop (label # labels) =
     (if startswith label ''-'' then (False, Some ''hyphen at start of label'')
      else if endswith label ''-'' then (False, Some ''hyphen at end of label'')
      else if contains ''--'' label then (False, Some ''consecutive hyphens'')
      else hyphen_loop labels)"

definition is_valid_hyphen_rules :: "string \<Rightarrow> verdict" where
  "is_valid_hyphen_rules d = hyphen_loop (split (CHR ''.'') d)"

section \<open>Regular expressions of \<open>process_domain\<close>\<close>

text \<open>
  \<open>re.match\<close> anchors at the start. In each pattern the character after a repeated
  class is outside that class, so the greedy repetition takes the longest run and no
  backtracking can change the outcome. Without \<open>re.MULTILINE\<close>, \<open>$\<close> matches at the
  end of the string and also just before a line feed that is the last character.
\<close>

definition LF :: char where
  "LF = CHR 0x0A"

definition at_dollar :: "string \<Rightarrow> bool" where
  "at_dollar rest = (rest = [] \<or> rest = [LF])"

text \<open>\<open>^[a-zA-Z]+://\<close> (line 111).\<close>

definition match_scheme :: "string \<Rightarrow> bool" where
  "match_scheme s =
     (takeWhile ascii_letter s \<noteq> [] \<and> startswith (dropWhile ascii_letter s) ''://'')"

text \<open>\<open>\d+\<close> and \<open>\.\d+\<close>: what is left of the string after the match, if there is one.\<close>

definition eat_digits :: "string \<Rightarrow> string option" where
  "eat_digits s = (if takeWhile isdigit s = [] then None else Some (dropWhile isdigit s))"

definition eat_dot_digits :: "string \<Rightarrow> string option" where
  "eat_dot_digits s = (case s of [] \<Rightarrow> None
     | c # t \<Rightarrow> if c = CHR ''.'' then eat_digits t else None)"

text \<open>\<open>^\d+(\.\d+){3}$\<close> (line 120).\<close>

definition match_ip :: "string \<Rightarrow> bool" where
  "match_ip s =
     (case eat_digits s of None \<Rightarrow> False | Some r1 \<Rightarrow>
       (case eat_dot_digits r1 of None \<Rightarrow> False | Some r2 \<Rightarrow>
         (case eat_dot_digits r2 of None \<Rightarrow> False | Some r3 \<Rightarrow>
           (case eat_dot_digits r3 of None \<Rightarrow> False | Some r4 \<Rightarrow> at_dollar r4))))"

text \<open>\<open>^[\w\-.]+$\<close> with \<open>re.UNICODE\<close> (line 124).\<close>

definition domain_char :: "char \<Rightarrow> bool" where
  "domain_char c = (isword c \<or> c = CHR ''-'' \<or> c = CHR ''.'')"

definition match_domain_chars :: "string \<Rightarrow> bool" where
  "match_domain_chars s =
     (takeWhile domain_char s \<noteq> [] \<and> at_dollar (dropWhile domain_char s))"

section \<open>Library functions called by \<open>process_domain\<close>\<close>

text \<open>
  \<open>tldextract.extract\<close> is a third-party resolver over a public-suffix list. The code
  reads three fields of its result; the resolver itself is a parameter of the model.
\<close>

record ExtractResult =
  subdomain :: string
  domain :: string
  suffix :: string

text \<open>
  \<open>urllib.parse\<close> checks a bracketed host with the \<open>ipaddress\<close> module and raises
  \<open>ValueError\<close> when it is not an address; that check is the second parameter
  (true when the host is accepted).
\<close>

record libs =
  tldextract :: "string \<Rightarrow> ExtractResult"
  check_bracketed_host :: "string \<Rightarrow> bool"

datatype py_error = ValueError

text \<open>
  The \<open>netloc\<close> field of \<open>urllib.parse.urlparse(url)\<close>, following \<open>urlsplit\<close>:
  leading C0 controls and spaces are dropped, tabs, carriage returns and line feeds are
  removed, a scheme (a letter, then letters, digits, \<open>+\<close>, \<open>-\<close>, \<open>.\<close>, up to the first
  colon) is cut off, and if \<open>//\<close> follows, the netloc runs to the first of \<open>/\<close>,
  \<open>?\<close>, \<open>#\<close>. Unbalanced brackets raise \<open>ValueError\<close>. The last check of
  \<open>urlsplit\<close>, on the NFKC form of a netloc that is not ASCII, cannot fail here: no code
  point below 256 normalises to text containing one of \<open>/ ? # @ :\<close>.
\<close>

definition c0_control_or_space :: "char \<Rightarrow> bool" where
  "c0_control_or_space c = (code c \<le> 32)"

definition unsafe_url_byte :: "char \<Rightarrow> bool" where
  "unsafe_url_byte c = (c = CHR 0x09 \<or> c = CHR 0x0D \<or> c = LF)"

definition scheme_char :: "char \<Rightarrow> bool" where
  "scheme_char c = (ascii_letter c \<or> isdigit c \<or> c = CHR ''+'' \<or> c = CHR ''-'' \<or> c = CHR ''.'')"

definition netloc_delim :: "char \<Rightarrow> bool" where
  "netloc_delim c = (c = CHR ''/'' \<or> c = CHR ''?'' \<or> c = CHR ''#'')"

definition splitnetloc :: "string \<Rightarrow> nat \<Rightarrow> string" where
  "splitnetloc url start = takeWhile (\<lambda>c. \<not> netloc_delim c) (drop start url)"

definition strip_scheme :: "string \<Rightarrow> string" where
  "strip_scheme url =
     (let i = length (takeWhile (\<lambda>c. c \<noteq> CHR '':'') url)
      in if CHR '':'' \<in> set url \<and> i > 0 \<and> ascii_letter (hd url) \<and> list_all scheme_char (take i url)
         then drop (i + 1) url else url)"

definition bracketed_host :: "string \<Rightarrow> string" where
  "bracketed_host netloc =
     takeWhile (\<lambda>c. c \<noteq> CHR '']'') (drop 1 (dropWhile (\<lambda>c. c \<noteq> CHR ''['') netloc))"

definition urlparse_netloc :: "libs \<Rightarrow> string \<Rightarrow> py_error + string" where
  "urlparse_netloc L url0 =
     (let url = lstrip_where c0_control_or_space url0;
          url = filter (\<lambda>c. \<not> unsafe_url_byte c) url;
          url = strip_scheme url
      in if take 2 url = ''//'' then
           (let netloc = splitnetloc url 2;
                lb = CHR ''['' \<in> set netloc;
                rb = CHR '']'' \<in> set netloc
            in if (lb \<and> \<not> rb) \<or> (rb \<and> \<not> lb) then Inl ValueError
               else if lb \<and> rb \<and> \<not> check_bracketed_host L (bracketed_host netloc)
               then Inl ValueError
               else Inr netloc)
         else Inr [])"

section \<open>\<open>process_domain\<close> (domain_cleaner.py, lines 94 to 159)\<close>

definition GOV_DOMAINS :: "string set" where
  "GOV_DOMAINS = {''lrv'', ''edu'', ''mil''}"

definition GOV_SUFFIXES :: "string set" where
  "GOV_SUFFIXES = {''lrv.lt'', ''edu.lt'', ''mil.lt'', ''gov.lt''}"

text \<open>
  The function returns the pair \<open>(domain, reason)\<close>, one component of which is
  \<open>None\<close>, or a library call raises. The body is modelled in two parts that follow one
  another in the source: lines 103 to 127 turn the raw line into the lowercase host that
  is handed to the resolver, unless they return or raise before; lines 130 to 159 decide
  on the resolver's answer.
\<close>

type_synonym result = "string option \<times> string option"

datatype prepared = Raises py_error | Returns result | Host string

text \<open>Lines 110 to 113: the netloc of a URL, or the string itself when the netloc is empty.\<close>

definition url_to_netloc :: "libs \<Rightarrow> string \<Rightarrow> py_error + string" where
  "url_to_netloc L cleaned =
     (if match_scheme cleaned then
        (case urlparse_netloc L cleaned of
           Inl e \<Rightarrow> Inl e
         | Inr netloc \<Rightarrow> Inr (if netloc \<noteq> [] then netloc else cleaned))
      else Inr cleaned)"

text \<open>Lines 115 to 117.\<close>

definition remove_www :: "string \<Rightarrow> string" where
  "remove_www cleaned = (if startswith (lower cleaned) ''www.'' then drop 4 cleaned else cleaned)"

text \<open>Lines 119 to 127.\<close>

definition screen :: "string \<Rightarrow> prepared" where
  "screen cleaned =
     (if match_ip cleaned then Returns (None, Some ''ip address'')
      else if \<not> match_domain_chars cleaned then Returns (None, Some ''invalid characters'')
      else Host (lower cleaned))"

text \<open>Lines 103 to 127.\<close>

definition prepare :: "libs \<Rightarrow> string \<Rightarrow> prepared" where
  "prepare L raw =
     (let cleaned = strip raw
      in if cleaned = [] then Returns (None, Some ''empty line'')
         else (let cleaned = rstrip_where (\<lambda>c. c = CHR ''.'') cleaned
               in case url_to_netloc L cleaned of
                    Inl e \<Rightarrow> Raises e
                  | Inr cleaned \<Rightarrow> screen (remove_www cleaned)))"

text \<open>Lines 139 to 145 and again 151 to 157: both validators, then acceptance.\<close>

definition validate :: "string \<Rightarrow> result" where
  "validate d =
     (case is_valid_domain_length d of
        (False, reason) \<Rightarrow> (None, reason)
      | (True, _) \<Rightarrow>
          (case is_valid_hyphen_rules d of
             (False, reason) \<Rightarrow> (None, reason)
           | (True, _) \<Rightarrow> (Some d, None)))"

text \<open>The condition of line 136.\<close>

definition government_qualified :: "ExtractResult \<Rightarrow> bool" where
  "government_qualified ext =
     (suffix ext \<in> GOV_SUFFIXES \<or> (suffix ext = ''lt'' \<and> domain ext \<in> GOV_DOMAINS))"

text \<open>Lines 130 to 159.\<close>

definition classify :: "ExtractResult \<Rightarrow> result" where
  "classify ext =
     (if domain ext = [] \<or> suffix ext = [] then (None, Some ''invalid domain/suffix'')
      else (let d = domain ext @ ''.'' @ suffix ext
            in if government_qualified ext
               then validate (if subdomain ext \<noteq> [] then subdomain ext @ ''.'' @ d else d)
               else if suffix ext = ''lt''
               then (if subdomain ext \<noteq> [] then (None, Some ''non-govt subdomain'')
                     else validate d)
               else (None, Some ''non-.lt domain'')))"

definition process_domain :: "libs \<Rightarrow> string option \<Rightarrow> py_error + result" where
  "process_domain L raw =
     (case raw of
        None \<Rightarrow> Inr (None, Some ''empty'')
      | Some r \<Rightarrow>
          (case prepare L r of
             Raises e \<Rightarrow> Inl e
           | Returns res \<Rightarrow> Inr res
           | Host h \<Rightarrow> Inr (classify (tldextract L h))))"

section \<open>A resolver instance\<close>

text \<open>
  The theorems hold for every resolver. Where one of them is applied to a concrete
  input, this instance stands for the library: the longest dot-separated tail of the host
  found in a list of public suffixes is the suffix, the label before it the domain and
  the rest the subdomain; with no such tail the last label is the domain.
\<close>

fun join_dot :: "string list \<Rightarrow> string" where
  "join_dot [] = []"
| "join_dot [l] = l"
| "join_dot (l # ls) = l @ ''.'' @ join_dot ls"

fun psl_scan :: "string list \<Rightarrow> string list \<Rightarrow> string list \<Rightarrow> ExtractResult" where
  "psl_scan sufs pre [] =
     \<lparr>subdomain = join_dot (butlast pre), domain = (if pre = [] then [] else last pre), suffix = []\<rparr>"
| "psl_scan sufs pre (l # ls) =
     (if join_dot (l # ls) \<in> set sufs
      then \<lparr>subdomain = join_dot (butlast pre), domain = (if pre = [] then [] else last pre),
            suffix = join_dot (l # ls)\<rparr>
      else psl_scan sufs (pre @ [l]) ls)"

definition sample_libs :: libs where
  "sample_libs = \<lparr>tldextract = (\<lambda>h. psl_scan [''lt'', ''gov.lt'', ''com''] [] (split (CHR ''.'') h)),
                  check_bracketed_host = (\<lambda>h. False)\<rparr>"

section \<open>The batch driver \<open>clean_domains\<close> (domain_cleaner.py, lines 18 to 57)\<close>

text \<open>
  The driver's input is the list of lines that iterating over the input file yields,
  each with its line terminator. The loop variables are the fields of the state. An
  exception raised by \<open>process_domain\<close> is not caught: it ends the run before anything
  is written.
\<close>

record driver_state =
  cleaned :: "string set"
  errors :: "(nat \<times> string \<times> string option) list"
  processed_count :: nat
  skipped_count :: nat
  line_count :: nat

definition initial_state :: driver_state where
  "initial_state =
     \<lparr>cleaned = {}, errors = [], processed_count = 0, skipped_count = 0, line_count = 0\<rparr>"

text \<open>One iteration of the loop, lines 26 to 42.\<close>

definition clean_step :: "libs \<Rightarrow> driver_state \<Rightarrow> string \<Rightarrow> py_error + driver_state" where
  "clean_step L st0 line =
     (let st = st0\<lparr>line_count := line_count st0 + 1\<rparr>;
          raw_line = rstrip_where (\<lambda>c. c = LF) line
      in if strip raw_line = [] then Inr st
         else (let st = st\<lparr>processed_count := processed_count st + 1\<rparr>;
                   skip = (\<lambda>reason. st\<lparr>skipped_count := skipped_count st + 1,
                              errors := errors st @ [(line_count st, raw_line, reason)]\<rparr>)
               in case process_domain L (Some raw_line) of
                    Inl e \<Rightarrow> Inl e
                  | Inr (None, reason) \<Rightarrow> Inr (skip reason)
                  | Inr (Some d, reason) \<Rightarrow>
                      if d \<noteq> [] then Inr (st\<lparr>cleaned := insert (lower d) (cleaned st)\<rparr>)
                      else Inr (skip reason)))"

fun clean_loop :: "libs \<Rightarrow> string list \<Rightarrow> driver_state \<Rightarrow> py_error + driver_state" where
  "clean_loop L [] st = Inr st"
| "clean_loop L (line # rest) st =
     (case clean_step L st line of
        Inl e \<Rightarrow> Inl e
      | Inr st' \<Rightarrow> clean_loop L rest st')"

text \<open>
  What is written after the loop: the lines of the output file, which are the elements
  of \<open>sorted(cleaned)\<close>, and the entries of the error file, which are the collected
  errors other than those with reason \<open>empty line\<close>. The set itself is kept beside
  them. The text layout of an error entry is not modelled.
\<close>

record report =
  result_set :: "string set"
  output_lines :: "string list"
  error_entries :: "(nat \<times> string \<times> string option) list"

definition clean_domains :: "libs \<Rightarrow> string list \<Rightarrow> py_error + report" where
  "clean_domains L lines =
     (case clean_loop L lines initial_state of
        Inl e \<Rightarrow> Inl e
      | Inr st \<Rightarrow>
          Inr \<lparr>result_set = cleaned st,
               output_lines = sorted_list_of_set (cleaned st),
               error_entries = filter (\<lambda>(n, l, reason). reason \<noteq> Some ''empty line'') (errors st)\<rparr>)"

section \<open>\<open>remove_domains\<close> (remove_domains.py, lines 31 to 55)\<close>

text \<open>
  The two inputs are the lines of the removees file and of the full list. The first loop
  collects the set of excluded domains, the second appends to the list of kept domains,
  and that list is written one domain per line.
\<close>

fun load_excluded :: "string list \<Rightarrow> string set \<Rightarrow> string set" where
  "load_excluded [] excluded_domains = excluded_domains"
| "load_excluded (line # rest) excluded_domains =
     (let d = strip line
      in if d \<noteq> [] then load_excluded rest (insert d excluded_domains)
         else load_excluded rest excluded_domains)"

fun filter_loop :: "string set \<Rightarrow> string list \<Rightarrow> string list \<Rightarrow> string list" where
  "filter_loop excluded_domains [] filtered_domains = filtered_domains"
| "filter_loop excluded_domains (line # rest) filtered_domains =
     (let d = strip line
      in if d \<noteq> [] \<and> d \<notin> excluded_domains
         then filter_loop excluded_domains rest (filtered_domains @ [d])
         else filter_loop excluded_domains rest filtered_domains)"

definition remove_domains :: "string list \<Rightarrow> string list \<Rightarrow> string list" where
  "remove_domains all_lines removees_lines =
     filter_loop (load_excluded removees_lines {}) all_lines []"

section \<open>Vocabulary of the specification\<close>

text \<open>
  The properties below are stated with predicates that follow the specification's words
  and do not use the string operations of the source.
\<close>

definition leading_hyphen :: "string \<Rightarrow> bool" where
  "leading_hyphen l = (l \<noteq> [] \<and> hd l = CHR ''-'')"

definition trailing_hyphen :: "string \<Rightarrow> bool" where
  "trailing_hyphen l = (l \<noteq> [] \<and> last l = CHR ''-'')"

text \<open>Two hyphens in a row: some character and its successor are both hyphens.\<close>

definition consecutive_hyphens :: "string \<Rightarrow> bool" where
  "consecutive_hyphens l = ((CHR ''-'', CHR ''-'') \<in> set (zip l (tl l)))"

text \<open>The reason of the first failing check of a label, in the order start, end, consecutive.\<close>

definition first_hyphen_violation :: "string \<Rightarrow> string option" where
  "first_hyphen_violation l =
     (if leading_hyphen l then Some ''hyphen at start of label''
      else if trailing_hyphen l then Some ''hyphen at end of label''
      else if consecutive_hyphens l then Some ''consecutive hyphens''
      else None)"

text \<open>The trimmed, non-empty lines of a line-oriented list.\<close>

definition trimmed_nonempty :: "string list \<Rightarrow> string list" where
  "trimmed_nonempty lines = filter (\<lambda>d. d \<noteq> []) (map strip lines)"

text \<open>A candidate passes both label validators.\<close>

definition passes_validators :: "string \<Rightarrow> bool" where
  "passes_validators d = (fst (is_valid_domain_length d) \<and> fst (is_valid_hyphen_rules d))"

text \<open>The reason that is propagated when a candidate fails: the length rule comes first.\<close>

definition failing_reason :: "string \<Rightarrow> string option" where
  "failing_reason d =
     (if \<not> fst (is_valid_domain_length d) then snd (is_valid_domain_length d)
      else snd (is_valid_hyphen_rules d))"

text \<open>The candidate of the government branch and of the commercial branch.\<close>

definition base_domain :: "ExtractResult \<Rightarrow> string" where
  "base_domain ext = domain ext @ ''.'' @ suffix ext"

definition with_subdomain :: "ExtractResult \<Rightarrow> string" where
  "with_subdomain ext =
     (if subdomain ext \<noteq> [] then subdomain ext @ ''.'' @ base_domain ext else base_domain ext)"

text \<open>The reasons that the two validators can give.\<close>

definition validator_reasons :: "string set" where
  "validator_reasons = {''single character label'', ''label exceeds 63 characters'',
     ''hyphen at start of label'', ''hyphen at end of label'', ''consecutive hyphens''}"

text \<open>
  A scheme prefix: one or more ASCII letters followed by \<open>://\<close>. A \<open>www.\<close> prefix in
  any mixture of cases, and the string without it.
\<close>

definition scheme_prefixed :: "string \<Rightarrow> bool" where
  "scheme_prefixed s =
     (\<exists>letters rest. letters \<noteq> [] \<and> list_all ascii_letter letters \<and> s = letters @ ''://'' @ rest)"

definition www_prefixed :: "string \<Rightarrow> bool" where
  "www_prefixed s =
     (\<exists>a b c rest. s = a # b # c # CHR ''.'' # rest \<and>
        a \<in> {CHR ''w'', CHR ''W''} \<and> b \<in> {CHR ''w'', CHR ''W''} \<and> c \<in> {CHR ''w'', CHR ''W''})"

definition without_www :: "string \<Rightarrow> string" where
  "without_www s = (if www_prefixed s then drop 4 s else s)"

text \<open>Lines 119 to 159 applied to a working string: what the function does after the prefix.\<close>

definition after_normalization :: "libs \<Rightarrow> string \<Rightarrow> py_error + result" where
  "after_normalization L w =
     (case screen w of
        Raises e \<Rightarrow> Inl e
      | Returns res \<Rightarrow> Inr res
      | Host h \<Rightarrow> Inr (classify (tldextract L h)))"

text \<open>
  What one line contributes to a run of the driver: the line without its line feed, the
  domains it adds to the result set (none or one), and whether classifying it raises.
\<close>

definition raw_line_of :: "string \<Rightarrow> string" where
  "raw_line_of line = rstrip_where (\<lambda>c. c = LF) line"

definition line_domains :: "libs \<Rightarrow> string \<Rightarrow> string set" where
  "line_domains L line =
     {lower d | d reason. strip (raw_line_of line) \<noteq> [] \<and> d \<noteq> [] \<and>
        process_domain L (Some (raw_line_of line)) = Inr (Some d, reason)}"

definition line_raises :: "libs \<Rightarrow> string \<Rightarrow> bool" where
  "line_raises L line =
     (strip (raw_line_of line) \<noteq> [] \<and> isl (process_domain L (Some (raw_line_of line))))"

text \<open>The twelve rejection reasons of the specification.\<close>

definition reason_vocabulary :: "string set" where
  "reason_vocabulary =
     {''empty'', ''empty line'', ''ip address'', ''invalid characters'', ''invalid domain/suffix'',
      ''single character label'', ''label exceeds 63 characters'', ''hyphen at start of label'',
      ''hyphen at end of label'', ''consecutive hyphens'', ''non-govt subdomain'',
      ''non-.lt domain''}"

text \<open>Four groups of one or more digits separated by three dots.\<close>

definition digit_group :: "string \<Rightarrow> bool" where
  "digit_group g = (g \<noteq> [] \<and> list_all isdigit g)"

definition dotted_quad :: "string \<Rightarrow> bool" where
  "dotted_quad s =
     (\<exists>a b c d. digit_group a \<and> digit_group b \<and> digit_group c \<and> digit_group d \<and>
        s = a @ ''.'' @ b @ ''.'' @ c @ ''.'' @ d)"

section \<open>Properties of \<open>process_domain\<close>\<close>

subsection \<open>Strings of dots\<close>

lemma rstrip_where_all: "\<forall>c\<in>set s. p c \<Longrightarrow> rstrip_where p s = []"
  by (simp add: rstrip_where_def)

lemma screen_empty: "screen [] = Returns (None, Some ''invalid characters'')"
  by (simp add: screen_def match_ip_def eat_digits_def match_domain_chars_def)

lemma url_to_netloc_empty: "url_to_netloc L [] = Inr []"
  by (simp add: url_to_netloc_def match_scheme_def)

lemma remove_www_empty: "remove_www [] = []"
  by (simp add: remove_www_def)

text \<open>
  Claim C10. A raw line that is not empty after trimming whitespace and then consists of
  dots only is rejected with reason \<open>invalid characters\<close>, not \<open>empty line\<close>: stripping
  the trailing dots leaves the empty string, which no pattern of the function matches.
\<close>

theorem dots_only_invalid_characters:
  assumes "strip raw \<noteq> []" and "set (strip raw) \<subseteq> {CHR ''.''}"
  shows "process_domain L (Some raw) = Inr (None, Some ''invalid characters'')"
proof -
  have "rstrip_where (\<lambda>c. c = CHR ''.'') (strip raw) = []"
    using assms(2) by (intro rstrip_where_all) auto
  with assms(1) show ?thesis
    by (simp add: process_domain_def prepare_def url_to_netloc_empty remove_www_empty screen_empty)
qed

theorem dots_only_invalid_characters_witness:
  "strip '' ... '' \<noteq> [] \<and> set (strip '' ... '') \<subseteq> {CHR ''.''} \<and>
   process_domain sample_libs (Some '' ... '') = Inr (None, Some ''invalid characters'')"
proof -
  have s: "strip '' ... '' = ''...''" by code_simp
  have h1: "strip '' ... '' \<noteq> []" unfolding s by simp
  have h2: "set (strip '' ... '') \<subseteq> {CHR ''.''}" unfolding s by simp
  from dots_only_invalid_characters [OF h1 h2, of sample_libs] h1 h2 show ?thesis by simp
qed

subsection \<open>Exceptions\<close>

text \<open>
  Claim C4 says that \<open>process_domain\<close> never raises. On the line \<open>http://[\<close> the
  scheme pattern matches, \<open>urlparse\<close> finds an opening bracket without a closing one in
  the netloc and raises \<open>ValueError\<close>, and nothing in \<open>process_domain\<close> catches it.
  This holds whatever the resolver and the bracketed-host check are.
\<close>

theorem process_domain_raises_on_open_bracket:
  "process_domain L (Some ''http://['') = Inl ValueError"
  by (simp add: process_domain_def prepare_def strip_def rstrip_where_def lstrip_where_def
      isspace_def code_def url_to_netloc_def match_scheme_def ascii_letter_def startswith_def
      urlparse_netloc_def c0_control_or_space_def unsafe_url_byte_def LF_def strip_scheme_def
      scheme_char_def isdigit_def splitnetloc_def netloc_delim_def)

subsection \<open>The address pattern\<close>

text \<open>
  A string with a line feed inside is not a single line, and the driver never passes one.
  On such a string the pattern can match more than a dotted quad: the raw string
  \<open>1.2.3.4\<close>, line feed, dot keeps its line feed through the trimming (the dot is
  last), loses the dot, and the working string \<open>1.2.3.4\<close> followed by a line feed
  is still matched, because \<open>$\<close> also matches before a final line feed.
\<close>

lemma process_domain_ip_with_line_feed:
  "process_domain L (Some (''1.2.3.4'' @ [LF] @ ''.'')) = Inr (None, Some ''ip address'')"
  by (simp add: process_domain_def prepare_def strip_def rstrip_where_def lstrip_where_def
      isspace_def code_def url_to_netloc_def match_scheme_def ascii_letter_def startswith_def
      remove_www_def lower_def lower_char_def screen_def match_ip_def eat_digits_def
      eat_dot_digits_def isdigit_def at_dollar_def LF_def)

subsection \<open>The hyphen validator\<close>

lemma startswith_hyphen: "startswith l ''-'' = leading_hyphen l"
  by (cases l) (auto simp: startswith_def leading_hyphen_def)

lemma endswith_hyphen: "endswith l ''-'' = trailing_hyphen l"
proof (cases l rule: rev_cases)
  case Nil
  then show ?thesis by (simp add: endswith_def trailing_hyphen_def)
next
  case (snoc ys y)
  then show ?thesis by (auto simp: endswith_def trailing_hyphen_def)
qed

lemma contains_two_hyphens: "contains ''--'' l = consecutive_hyphens l"
proof (induction l)
  case Nil
  show ?case by (simp add: consecutive_hyphens_def)
next
  case (Cons x xs)
  show ?case
  proof (cases xs)
    case Nil
    then show ?thesis by (simp add: consecutive_hyphens_def startswith_def)
  next
    case (Cons y ys)
    with Cons.IH show ?thesis
      by (auto simp: consecutive_hyphens_def startswith_def)
  qed
qed

lemma hyphen_loop_find:
  "hyphen_loop ls =
     (case find (\<lambda>l. first_hyphen_violation l \<noteq> None) ls of
        None \<Rightarrow> (True, None)
      | Some l \<Rightarrow> (False, first_hyphen_violation l))"
  by (induction ls)
     (simp_all add: startswith_hyphen endswith_hyphen contains_two_hyphens first_hyphen_violation_def)

lemma hyphen_loop_clean:
  "(\<forall>l\<in>set ls. \<not> leading_hyphen l \<and> \<not> trailing_hyphen l \<and> \<not> consecutive_hyphens l) \<Longrightarrow>
   hyphen_loop ls = (True, None)"
  by (induction ls) (simp_all add: startswith_hyphen endswith_hyphen contains_two_hyphens)

lemmas prepare_eval =
  prepare_def strip_def rstrip_where_def lstrip_where_def isspace_def code_def
  url_to_netloc_def match_scheme_def ascii_letter_def startswith_def remove_www_def
  lower_def lower_char_def screen_def match_ip_def eat_digits_def eat_dot_digits_def
  isdigit_def at_dollar_def LF_def match_domain_chars_def domain_char_def isword_def

lemma prepare_my_site: "prepare L ''my--site.lt'' = Host ''my--site.lt''"
  by (simp add: prepare_eval)

text \<open>
  Claim C7. The hyphen validator returns the reason of the first failing check (start,
  then end, then consecutive hyphens) of the first label, in label order, that fails one;
  when no label has a leading, a trailing or two consecutive hyphens it reports success.
  \<open>my--site.lt\<close> is rejected with reason \<open>consecutive hyphens\<close>, by the
  validator and, for a resolver that splits it into \<open>my--site\<close> and \<open>lt\<close>, by
  \<open>process_domain\<close>.
\<close>

theorem hyphen_rules_first_failure:
  "is_valid_hyphen_rules d =
     (case find (\<lambda>l. first_hyphen_violation l \<noteq> None) (split (CHR ''.'') d) of
        None \<Rightarrow> (True, None)
      | Some l \<Rightarrow> (False, first_hyphen_violation l))
   \<and> ((\<forall>l\<in>set (split (CHR ''.'') d).
          \<not> leading_hyphen l \<and> \<not> trailing_hyphen l \<and> \<not> consecutive_hyphens l) \<longrightarrow>
        is_valid_hyphen_rules d = (True, None))
   \<and> is_valid_hyphen_rules ''my--site.lt'' = (False, Some ''consecutive hyphens'')
   \<and> (tldextract L ''my--site.lt'' = \<lparr>subdomain = [], domain = ''my--site'', suffix = ''lt''\<rparr> \<longrightarrow>
        process_domain L (Some ''my--site.lt'') = Inr (None, Some ''consecutive hyphens''))"
proof (intro conjI impI)
  show "is_valid_hyphen_rules d =
     (case find (\<lambda>l. first_hyphen_violation l \<noteq> None) (split (CHR ''.'') d) of
        None \<Rightarrow> (True, None)
      | Some l \<Rightarrow> (False, first_hyphen_violation l))"
    unfolding is_valid_hyphen_rules_def by (rule hyphen_loop_find)
next
  assume "\<forall>l\<in>set (split (CHR ''.'') d).
          \<not> leading_hyphen l \<and> \<not> trailing_hyphen l \<and> \<not> consecutive_hyphens l"
  then show "is_valid_hyphen_rules d = (True, None)"
    unfolding is_valid_hyphen_rules_def by (rule hyphen_loop_clean)
next
  show "is_valid_hyphen_rules ''my--site.lt'' = (False, Some ''consecutive hyphens'')"
    by code_simp
next
  assume ext: "tldextract L ''my--site.lt'' = \<lparr>subdomain = [], domain = ''my--site'', suffix = ''lt''\<rparr>"
  have "classify \<lparr>subdomain = [], domain = ''my--site'', suffix = ''lt''\<rparr>
          = (None, Some ''consecutive hyphens'')"
    by code_simp
  then show "process_domain L (Some ''my--site.lt'') = Inr (None, Some ''consecutive hyphens'')"
    by (simp add: process_domain_def prepare_my_site ext)
qed

theorem hyphen_rules_first_failure_witness:
  "find (\<lambda>l. first_hyphen_violation l \<noteq> None) (split (CHR ''.'') ''ok.a--b-.-c.lt'') = Some ''a--b-''
   \<and> first_hyphen_violation ''a--b-'' = Some ''hyphen at end of label''
   \<and> is_valid_hyphen_rules ''ok.a--b-.-c.lt'' = (False, Some ''hyphen at end of label'')
   \<and> tldextract sample_libs ''my--site.lt'' = \<lparr>subdomain = [], domain = ''my--site'', suffix = ''lt''\<rparr>
   \<and> process_domain sample_libs (Some ''my--site.lt'') = Inr (None, Some ''consecutive hyphens'')"
proof -
  have f: "find (\<lambda>l. first_hyphen_violation l \<noteq> None) (split (CHR ''.'') ''ok.a--b-.-c.lt'') = Some ''a--b-''"
    by code_simp
  have v: "first_hyphen_violation ''a--b-'' = Some ''hyphen at end of label''"
    by code_simp
  have e: "tldextract sample_libs ''my--site.lt'' = \<lparr>subdomain = [], domain = ''my--site'', suffix = ''lt''\<rparr>"
    by code_simp
  note t = hyphen_rules_first_failure [of "''ok.a--b-.-c.lt''" sample_libs]
  from t have "is_valid_hyphen_rules ''ok.a--b-.-c.lt'' = (False, Some ''hyphen at end of label'')"
    by (simp only: f v option.case)
  moreover from t e
  have "process_domain sample_libs (Some ''my--site.lt'') = Inr (None, Some ''consecutive hyphens'')"
    by blast
  ultimately show ?thesis using f v e by blast
qed

subsection \<open>\<open>remove_domains\<close>\<close>

lemma load_excluded_set:
  "load_excluded ls acc = acc \<union> set (trimmed_nonempty ls)"
  by (induction ls arbitrary: acc) (auto simp: trimmed_nonempty_def Let_def)

lemma filter_loop_append:
  "filter_loop ex ls acc = acc @ filter (\<lambda>d. d \<notin> ex) (trimmed_nonempty ls)"
  by (induction ls arbitrary: acc) (auto simp: trimmed_nonempty_def Let_def)

text \<open>
  Claim C9. \<open>remove_domains\<close> returns the trimmed, non-empty lines of the full list
  that are not among the trimmed, non-empty lines of the removees list, in the order of
  the full list; membership is equality of strings, and nothing is normalised or
  validated, as the second part shows on lines that differ in case or are not domains.
\<close>

theorem remove_domains_is_filter:
  "remove_domains all_lines removees_lines =
     filter (\<lambda>d. d \<notin> set (trimmed_nonempty removees_lines)) (trimmed_nonempty all_lines)
   \<and> remove_domains [''b.lt'' @ [LF], ''Example.LT '' @ [LF], [LF], ''not a domain'', ''a.lt'']
                     [''example.lt'' @ [LF], '' a.lt'' @ [LF], ''  '']
        = [''b.lt'', ''Example.LT'', ''not a domain'']"
proof
  show "remove_domains all_lines removees_lines =
     filter (\<lambda>d. d \<notin> set (trimmed_nonempty removees_lines)) (trimmed_nonempty all_lines)"
    by (simp add: remove_domains_def load_excluded_set filter_loop_append)
  show "remove_domains [''b.lt'' @ [LF], ''Example.LT '' @ [LF], [LF], ''not a domain'', ''a.lt'']
                     [''example.lt'' @ [LF], '' a.lt'' @ [LF], ''  '']
        = [''b.lt'', ''Example.LT'', ''not a domain'']"
    by code_simp
qed

subsection \<open>Validation and the policy branches\<close>

lemma validate_eq:
  "validate d = (if passes_validators d then (Some d, None) else (None, failing_reason d))"
  by (cases "is_valid_domain_length d"; cases "is_valid_hyphen_rules d")
     (auto simp: validate_def passes_validators_def failing_reason_def)

lemma length_loop_reason:
  "length_loop ls = (True, None) \<or> length_loop ls = (False, Some ''single character label'')
   \<or> length_loop ls = (False, Some ''label exceeds 63 characters'')"
  by (induction ls) auto

lemma hyphen_loop_reason:
  "hyphen_loop ls = (True, None) \<or> hyphen_loop ls = (False, Some ''hyphen at start of label'')
   \<or> hyphen_loop ls = (False, Some ''hyphen at end of label'')
   \<or> hyphen_loop ls = (False, Some ''consecutive hyphens'')"
  by (induction ls) auto

lemma failing_reason_vocabulary:
  "\<not> passes_validators d \<Longrightarrow> \<exists>r\<in>validator_reasons. failing_reason d = Some r"
  using length_loop_reason [of "split (CHR ''.'') d"] hyphen_loop_reason [of "split (CHR ''.'') d"]
  by (auto simp: passes_validators_def failing_reason_def validator_reasons_def
      is_valid_domain_length_def is_valid_hyphen_rules_def)

lemma validate_not_subdomain_reason: "validate d \<noteq> (None, Some ''non-govt subdomain'')"
proof (cases "passes_validators d")
  case True
  then show ?thesis by (simp add: validate_eq)
next
  case False
  from failing_reason_vocabulary [OF this] show ?thesis
    by (auto simp: validate_eq False validator_reasons_def)
qed

lemma process_domain_host:
  "prepare L raw = Host h \<Longrightarrow> process_domain L (Some raw) = Inr (classify (tldextract L h))"
  by (simp add: process_domain_def)

lemma classify_government:
  assumes "domain ext \<noteq> []" "suffix ext \<noteq> []" "government_qualified ext"
  shows "classify ext = validate (with_subdomain ext)"
  using assms by (simp add: classify_def with_subdomain_def base_domain_def)

lemma classify_commercial:
  assumes "domain ext \<noteq> []" "suffix ext = ''lt''" "\<not> government_qualified ext"
  shows "classify ext =
     (if subdomain ext \<noteq> [] then (None, Some ''non-govt subdomain'') else validate (base_domain ext))"
  using assms by (simp add: classify_def base_domain_def)

lemma prepare_vilnius: "prepare L ''vilnius.LRV.lt.'' = Host ''vilnius.lrv.lt''"
  by (simp add: prepare_eval char_of_eq_iff)

lemma prepare_shop: "prepare L ''shop.example.lt'' = Host ''shop.example.lt''"
  by (simp add: prepare_eval)

text \<open>
  Claim C1. When the line reaches the resolver and the resolver finds a registrable
  domain whose suffix is one of \<open>lrv.lt\<close>, \<open>edu.lt\<close>, \<open>mil.lt\<close>, \<open>gov.lt\<close>, or
  whose suffix is \<open>lt\<close> and whose domain is one of \<open>lrv\<close>, \<open>edu\<close>, \<open>mil\<close>, the
  candidate is subdomain.domain.suffix when the subdomain is not empty and domain.suffix
  otherwise; the candidate is accepted exactly when it passes both validators, and the
  failing validator's reason is returned otherwise. With a resolver that splits
  \<open>vilnius.lrv.lt\<close> into \<open>vilnius\<close>, \<open>lrv\<close>, \<open>lt\<close>, the line
  \<open>vilnius.LRV.lt.\<close> is accepted as \<open>vilnius.lrv.lt\<close>.
\<close>

theorem government_branch:
  "(prepare L raw = Host h \<and> tldextract L h = ext \<and> domain ext \<noteq> [] \<and>
    (suffix ext \<in> {''lrv.lt'', ''edu.lt'', ''mil.lt'', ''gov.lt''} \<or>
     (suffix ext = ''lt'' \<and> domain ext \<in> {''lrv'', ''edu'', ''mil''})) \<longrightarrow>
      process_domain L (Some raw) =
        Inr (if passes_validators (with_subdomain ext) then (Some (with_subdomain ext), None)
             else (None, failing_reason (with_subdomain ext)))
      \<and> (process_domain L (Some raw) = Inr (Some (with_subdomain ext), None))
          = passes_validators (with_subdomain ext)
      \<and> with_subdomain ext =
          (if subdomain ext \<noteq> [] then subdomain ext @ ''.'' @ domain ext @ ''.'' @ suffix ext
           else domain ext @ ''.'' @ suffix ext))
   \<and> (tldextract L ''vilnius.lrv.lt'' = \<lparr>subdomain = ''vilnius'', domain = ''lrv'', suffix = ''lt''\<rparr> \<longrightarrow>
        process_domain L (Some ''vilnius.LRV.lt.'') = Inr (Some ''vilnius.lrv.lt'', None))"
proof (intro conjI impI)
  assume a: "prepare L raw = Host h \<and> tldextract L h = ext \<and> domain ext \<noteq> [] \<and>
    (suffix ext \<in> {''lrv.lt'', ''edu.lt'', ''mil.lt'', ''gov.lt''} \<or>
     (suffix ext = ''lt'' \<and> domain ext \<in> {''lrv'', ''edu'', ''mil''}))"
  then have gov: "government_qualified ext"
    by (simp add: government_qualified_def GOV_SUFFIXES_def GOV_DOMAINS_def)
  from a have suf: "suffix ext \<noteq> []" by auto
  from a gov suf have run: "process_domain L (Some raw) = Inr (validate (with_subdomain ext))"
    by (simp add: process_domain_host classify_government)
  show "process_domain L (Some raw) =
        Inr (if passes_validators (with_subdomain ext) then (Some (with_subdomain ext), None)
             else (None, failing_reason (with_subdomain ext)))"
    by (simp add: run validate_eq)
  show "(process_domain L (Some raw) = Inr (Some (with_subdomain ext), None))
          = passes_validators (with_subdomain ext)"
    by (simp add: run validate_eq)
next
  show "with_subdomain ext =
          (if subdomain ext \<noteq> [] then subdomain ext @ ''.'' @ domain ext @ ''.'' @ suffix ext
           else domain ext @ ''.'' @ suffix ext)"
    by (simp add: with_subdomain_def base_domain_def)
next
  assume e: "tldextract L ''vilnius.lrv.lt'' = \<lparr>subdomain = ''vilnius'', domain = ''lrv'', suffix = ''lt''\<rparr>"
  have "classify \<lparr>subdomain = ''vilnius'', domain = ''lrv'', suffix = ''lt''\<rparr>
          = (Some ''vilnius.lrv.lt'', None)"
    by code_simp
  then show "process_domain L (Some ''vilnius.LRV.lt.'') = Inr (Some ''vilnius.lrv.lt'', None)"
    by (simp add: process_domain_host [OF prepare_vilnius] e)
qed

theorem government_branch_witness:
  "prepare sample_libs ''www.Stat.GOV.lt'' = Host ''stat.gov.lt''
   \<and> tldextract sample_libs ''stat.gov.lt'' = \<lparr>subdomain = [], domain = ''stat'', suffix = ''gov.lt''\<rparr>
   \<and> process_domain sample_libs (Some ''www.Stat.GOV.lt'') = Inr (Some ''stat.gov.lt'', None)
   \<and> tldextract sample_libs ''vilnius.lrv.lt'' = \<lparr>subdomain = ''vilnius'', domain = ''lrv'', suffix = ''lt''\<rparr>
   \<and> process_domain sample_libs (Some ''vilnius.LRV.lt.'') = Inr (Some ''vilnius.lrv.lt'', None)"
proof -
  let ?ext = "\<lparr>subdomain = [], domain = ''stat'', suffix = ''gov.lt''\<rparr>"
  have p: "prepare sample_libs ''www.Stat.GOV.lt'' = Host ''stat.gov.lt''" by code_simp
  have e: "tldextract sample_libs ''stat.gov.lt'' = ?ext" by code_simp
  have v: "passes_validators (with_subdomain ?ext)" by code_simp
  have w: "with_subdomain ?ext = ''stat.gov.lt''" by code_simp
  have e2: "tldextract sample_libs ''vilnius.lrv.lt''
             = \<lparr>subdomain = ''vilnius'', domain = ''lrv'', suffix = ''lt''\<rparr>" by code_simp
  note t = government_branch [of sample_libs "''www.Stat.GOV.lt''" "''stat.gov.lt''" ?ext]
  from t p e have "process_domain sample_libs (Some ''www.Stat.GOV.lt'') =
        Inr (if passes_validators (with_subdomain ?ext) then (Some (with_subdomain ?ext), None)
             else (None, failing_reason (with_subdomain ?ext)))"
    by simp
  then have r1: "process_domain sample_libs (Some ''www.Stat.GOV.lt'') = Inr (Some ''stat.gov.lt'', None)"
    using v by (simp add: w)
  from t e2 have r2: "process_domain sample_libs (Some ''vilnius.LRV.lt.'') = Inr (Some ''vilnius.lrv.lt'', None)"
    by blast
  from p e r1 e2 r2 show ?thesis by blast
qed

text \<open>
  Claim C2. When the line reaches the resolver and the resolver finds a registrable
  domain with suffix \<open>lt\<close> that is not government-qualified, the reason
  \<open>non-govt subdomain\<close> is returned if and only if the subdomain is not empty; with an
  empty subdomain the candidate domain.suffix is accepted when it passes both validators
  (and the failing validator's reason is returned when it does not). With a resolver that
  splits \<open>shop.example.lt\<close> into \<open>shop\<close>, \<open>example\<close>, \<open>lt\<close>, that line is
  rejected with reason \<open>non-govt subdomain\<close>.
\<close>

theorem commercial_branch:
  "(prepare L raw = Host h \<and> tldextract L h = ext \<and> domain ext \<noteq> [] \<and> suffix ext = ''lt'' \<and>
    domain ext \<notin> {''lrv'', ''edu'', ''mil''} \<longrightarrow>
      ((process_domain L (Some raw) = Inr (None, Some ''non-govt subdomain'')) = (subdomain ext \<noteq> []))
      \<and> (subdomain ext = [] \<longrightarrow>
           process_domain L (Some raw) =
             Inr (if passes_validators (domain ext @ ''.'' @ suffix ext)
                  then (Some (domain ext @ ''.'' @ suffix ext), None)
                  else (None, failing_reason (domain ext @ ''.'' @ suffix ext)))))
   \<and> (tldextract L ''shop.example.lt'' = \<lparr>subdomain = ''shop'', domain = ''example'', suffix = ''lt''\<rparr> \<longrightarrow>
        process_domain L (Some ''shop.example.lt'') = Inr (None, Some ''non-govt subdomain''))"
proof (intro conjI impI)
  assume a: "prepare L raw = Host h \<and> tldextract L h = ext \<and> domain ext \<noteq> [] \<and> suffix ext = ''lt'' \<and>
    domain ext \<notin> {''lrv'', ''edu'', ''mil''}"
  then have ng: "\<not> government_qualified ext"
    by (simp add: government_qualified_def GOV_SUFFIXES_def GOV_DOMAINS_def)
  from a ng have run: "process_domain L (Some raw) =
      Inr (if subdomain ext \<noteq> [] then (None, Some ''non-govt subdomain'') else validate (base_domain ext))"
    by (simp add: process_domain_host classify_commercial)
  show "(process_domain L (Some raw) = Inr (None, Some ''non-govt subdomain'')) = (subdomain ext \<noteq> [])"
    by (simp add: run validate_not_subdomain_reason)
  assume "subdomain ext = []"
  then show "process_domain L (Some raw) =
             Inr (if passes_validators (domain ext @ ''.'' @ suffix ext)
                  then (Some (domain ext @ ''.'' @ suffix ext), None)
                  else (None, failing_reason (domain ext @ ''.'' @ suffix ext)))"
    by (simp add: run validate_eq base_domain_def)
next
  assume e: "tldextract L ''shop.example.lt'' = \<lparr>subdomain = ''shop'', domain = ''example'', suffix = ''lt''\<rparr>"
  have "classify \<lparr>subdomain = ''shop'', domain = ''example'', suffix = ''lt''\<rparr>
          = (None, Some ''non-govt subdomain'')"
    by code_simp
  then show "process_domain L (Some ''shop.example.lt'') = Inr (None, Some ''non-govt subdomain'')"
    by (simp add: process_domain_host [OF prepare_shop] e)
qed

theorem commercial_branch_witness:
  "prepare sample_libs ''http://Example.lt/index.html'' = Host ''example.lt''
   \<and> tldextract sample_libs ''example.lt'' = \<lparr>subdomain = [], domain = ''example'', suffix = ''lt''\<rparr>
   \<and> process_domain sample_libs (Some ''http://Example.lt/index.html'') \<noteq> Inr (None, Some ''non-govt subdomain'')
   \<and> process_domain sample_libs (Some ''http://Example.lt/index.html'') = Inr (Some ''example.lt'', None)
   \<and> tldextract sample_libs ''shop.example.lt'' = \<lparr>subdomain = ''shop'', domain = ''example'', suffix = ''lt''\<rparr>
   \<and> process_domain sample_libs (Some ''shop.example.lt'') = Inr (None, Some ''non-govt subdomain'')"
proof -
  let ?raw = "''http://Example.lt/index.html''"
  let ?ext = "\<lparr>subdomain = [], domain = ''example'', suffix = ''lt''\<rparr>"
  have p: "prepare sample_libs ?raw = Host ''example.lt''" by code_simp
  have e: "tldextract sample_libs ''example.lt'' = ?ext" by code_simp
  have v: "passes_validators ''example.lt''" by code_simp
  have e2: "tldextract sample_libs ''shop.example.lt''
             = \<lparr>subdomain = ''shop'', domain = ''example'', suffix = ''lt''\<rparr>" by code_simp
  have h: "prepare sample_libs ?raw = Host ''example.lt'' \<and> tldextract sample_libs ''example.lt'' = ?ext
      \<and> domain ?ext \<noteq> [] \<and> suffix ?ext = ''lt'' \<and> domain ?ext \<notin> {''lrv'', ''edu'', ''mil''}"
    using p e by simp
  have s: "subdomain ?ext = []" by simp
  have c: "domain ?ext @ ''.'' @ suffix ?ext = ''example.lt''" by simp
  note t = commercial_branch [of sample_libs ?raw "''example.lt''" ?ext]
  from t h have "(process_domain sample_libs (Some ?raw) = Inr (None, Some ''non-govt subdomain''))
      = (subdomain ?ext \<noteq> [])"
    by blast
  then have r0: "process_domain sample_libs (Some ?raw) \<noteq> Inr (None, Some ''non-govt subdomain'')"
    using s by blast
  from t h s have "process_domain sample_libs (Some ?raw) =
             Inr (if passes_validators (domain ?ext @ ''.'' @ suffix ?ext)
                  then (Some (domain ?ext @ ''.'' @ suffix ?ext), None)
                  else (None, failing_reason (domain ?ext @ ''.'' @ suffix ?ext)))"
    by blast
  then have r1: "process_domain sample_libs (Some ?raw) = Inr (Some ''example.lt'', None)"
    unfolding c using v by simp
  from t e2 have r2: "process_domain sample_libs (Some ''shop.example.lt'') = Inr (None, Some ''non-govt subdomain'')"
    by blast
  from p e r0 r1 e2 r2 show ?thesis by blast
qed

subsection \<open>Lowercasing, the scheme prefix and the \<open>www.\<close> prefix\<close>

lemma code_less_256: "code c < 256"
  unfolding code_def by (rule nat_of_char_less_256)

lemma lower_char_code:
  "code (lower_char c) =
     (if (65 \<le> code c \<and> code c \<le> 90) \<or> (192 \<le> code c \<and> code c \<le> 222 \<and> code c \<noteq> 215)
      then code c + 32 else code c)"
  using code_less_256 [of c] by (auto simp: lower_char_def code_def Let_def)

lemma char_eq_code: "(c = d) = (code c = code d)"
  by (simp add: code_def)

lemma lower_char_dot [simp]: "(lower_char c = CHR ''.'') = (c = CHR ''.'')"
  by (auto simp: char_eq_code [of _ "CHR ''.''"] lower_char_code) (simp_all add: code_def)

lemma lower_char_hyphen [simp]: "(lower_char c = CHR ''-'') = (c = CHR ''-'')"
  by (auto simp: char_eq_code [of _ "CHR ''-''"] lower_char_code) (simp_all add: code_def)

lemma lower_char_w: "(lower_char c = CHR ''w'') = (c = CHR ''w'' \<or> c = CHR ''W'')"
  by (auto simp: char_eq_code [of _ "CHR ''w''"] char_eq_code [of _ "CHR ''W''"] lower_char_code)
     (simp_all add: code_def)

lemma match_scheme_iff: "match_scheme s = scheme_prefixed s"
proof
  assume m: "match_scheme s"
  let ?ls = "takeWhile ascii_letter s" and ?r = "dropWhile ascii_letter s"
  from m have "?ls \<noteq> []" and t: "take 3 ?r = ''://''"
    by (simp_all add: match_scheme_def startswith_def eval_nat_numeral)
  moreover have "list_all ascii_letter ?ls"
    by (simp add: list_all_iff) (meson set_takeWhileD)
  moreover have "s = ?ls @ ''://'' @ drop 3 ?r"
    using t by (metis append_take_drop_id takeWhile_dropWhile_id)
  ultimately show "scheme_prefixed s"
    unfolding scheme_prefixed_def by blast
next
  assume "scheme_prefixed s"
  then obtain letters rest where l: "letters \<noteq> []" "list_all ascii_letter letters"
      and s: "s = letters @ ''://'' @ rest"
    unfolding scheme_prefixed_def by blast
  have nc: "\<not> ascii_letter (CHR '':'')" by (simp add: ascii_letter_def code_def)
  from l(2) have "takeWhile ascii_letter s = letters" "dropWhile ascii_letter s = ''://'' @ rest"
    unfolding s by (simp_all add: list_all_iff takeWhile_append2 dropWhile_append2 nc)
  with l(1) show "match_scheme s"
    by (simp add: match_scheme_def startswith_def)
qed

lemma startswith_www_iff: "startswith (lower s) ''www.'' = www_prefixed s"
proof (cases s)
  case Nil
  then show ?thesis by (simp add: startswith_def www_prefixed_def lower_def)
next
  case s1: (Cons a s')
  show ?thesis
  proof (cases s')
    case Nil
    with s1 show ?thesis by (simp add: startswith_def www_prefixed_def lower_def)
  next
    case s2: (Cons b s'')
    show ?thesis
    proof (cases s'')
      case Nil
      with s1 s2 show ?thesis by (simp add: startswith_def www_prefixed_def lower_def)
    next
      case s3: (Cons c s''')
      show ?thesis
      proof (cases s''')
        case Nil
        with s1 s2 s3 show ?thesis by (simp add: startswith_def www_prefixed_def lower_def)
      next
        case (Cons d rest)
        with s1 s2 s3 show ?thesis
          by (auto simp: startswith_def www_prefixed_def lower_def lower_char_w)
      qed
    qed
  qed
qed

lemma remove_www_eq: "remove_www s = without_www s"
  by (simp add: remove_www_def without_www_def startswith_www_iff)

lemma process_domain_after:
  "prepare L raw = screen w \<Longrightarrow> process_domain L (Some raw) = after_normalization L w"
  by (simp add: process_domain_def after_normalization_def)

lemma netloc_scenario_a: "urlparse_netloc L ''https://www.LRV.lt/page'' = Inr ''www.LRV.lt''"
  by (simp add: urlparse_netloc_def lstrip_where_def c0_control_or_space_def code_def
      unsafe_url_byte_def LF_def strip_scheme_def ascii_letter_def scheme_char_def isdigit_def
      splitnetloc_def netloc_delim_def)

lemma prepare_scenario_a: "prepare L ''https://www.LRV.lt/page'' = Host ''lrv.lt''"
proof -
  have "match_scheme ''https://www.LRV.lt/page''" by code_simp
  then have "url_to_netloc L ''https://www.LRV.lt/page'' = Inr ''www.LRV.lt''"
    by (simp add: url_to_netloc_def netloc_scenario_a)
  moreover have "strip ''https://www.LRV.lt/page'' = ''https://www.LRV.lt/page''" by code_simp
  moreover have "rstrip_where (\<lambda>c. c = CHR ''.'') ''https://www.LRV.lt/page'' = ''https://www.LRV.lt/page''"
    by (simp add: rstrip_where_def)
  moreover have "screen (remove_www ''www.LRV.lt'') = Host ''lrv.lt''" by code_simp
  ultimately show ?thesis by (simp add: prepare_def)
qed

text \<open>
  Claim C5. After trimming and removing trailing dots, a string with a scheme prefix is
  replaced by the netloc of the parsed URL when the parser returns a non-empty one, and
  is kept when the netloc is empty; a string without a scheme prefix is kept. The
  \<open>www.\<close> prefix (four characters, any case) is removed after that, and the rest of
  the function runs on the outcome. For \<open>https://www.LRV.lt/page\<close> the netloc is
  \<open>www.LRV.lt\<close>, and with a resolver that splits \<open>lrv.lt\<close> into \<open>lrv\<close> and
  \<open>lt\<close> the line is accepted as \<open>lrv.lt\<close>.
\<close>

theorem normalization_order:
  "(strip raw \<noteq> [] \<and> s = rstrip_where (\<lambda>c. c = CHR ''.'') (strip raw) \<longrightarrow>
      (scheme_prefixed s \<and> urlparse_netloc L s = Inr netloc \<and> netloc \<noteq> [] \<longrightarrow>
         process_domain L (Some raw) = after_normalization L (without_www netloc))
    \<and> (scheme_prefixed s \<and> urlparse_netloc L s = Inr [] \<longrightarrow>
         process_domain L (Some raw) = after_normalization L (without_www s))
    \<and> (\<not> scheme_prefixed s \<longrightarrow>
         process_domain L (Some raw) = after_normalization L (without_www s)))
   \<and> urlparse_netloc L ''https://www.LRV.lt/page'' = Inr ''www.LRV.lt''
   \<and> (tldextract L ''lrv.lt'' = \<lparr>subdomain = [], domain = ''lrv'', suffix = ''lt''\<rparr> \<longrightarrow>
        process_domain L (Some ''https://www.LRV.lt/page'') = Inr (Some ''lrv.lt'', None))"
proof (intro conjI impI)
  assume a: "strip raw \<noteq> [] \<and> s = rstrip_where (\<lambda>c. c = CHR ''.'') (strip raw)"
  {
    assume "scheme_prefixed s \<and> urlparse_netloc L s = Inr netloc \<and> netloc \<noteq> []"
    with a have "prepare L raw = screen (without_www netloc)"
      by (simp add: prepare_def url_to_netloc_def match_scheme_iff remove_www_eq)
    then show "process_domain L (Some raw) = after_normalization L (without_www netloc)"
      by (rule process_domain_after)
  }
  {
    assume "scheme_prefixed s \<and> urlparse_netloc L s = Inr []"
    with a have "prepare L raw = screen (without_www s)"
      by (simp add: prepare_def url_to_netloc_def match_scheme_iff remove_www_eq)
    then show "process_domain L (Some raw) = after_normalization L (without_www s)"
      by (rule process_domain_after)
  }
  {
    assume "\<not> scheme_prefixed s"
    with a have "prepare L raw = screen (without_www s)"
      by (simp add: prepare_def url_to_netloc_def match_scheme_iff remove_www_eq)
    then show "process_domain L (Some raw) = after_normalization L (without_www s)"
      by (rule process_domain_after)
  }
next
  show "urlparse_netloc L ''https://www.LRV.lt/page'' = Inr ''www.LRV.lt''"
    by (rule netloc_scenario_a)
next
  assume e: "tldextract L ''lrv.lt'' = \<lparr>subdomain = [], domain = ''lrv'', suffix = ''lt''\<rparr>"
  have "classify \<lparr>subdomain = [], domain = ''lrv'', suffix = ''lt''\<rparr> = (Some ''lrv.lt'', None)"
    by code_simp
  then show "process_domain L (Some ''https://www.LRV.lt/page'') = Inr (Some ''lrv.lt'', None)"
    by (simp add: process_domain_def prepare_scenario_a e)
qed

theorem normalization_order_witness:
  "strip '' http://WWW.Example.lt/path.. '' \<noteq> []
   \<and> scheme_prefixed ''http://WWW.Example.lt/path''
   \<and> urlparse_netloc sample_libs ''http://WWW.Example.lt/path'' = Inr ''WWW.Example.lt''
   \<and> without_www ''WWW.Example.lt'' = ''Example.lt''
   \<and> process_domain sample_libs (Some '' http://WWW.Example.lt/path.. '') = Inr (Some ''example.lt'', None)
   \<and> scheme_prefixed ''http:///www.example.lt''
   \<and> urlparse_netloc sample_libs ''http:///www.example.lt'' = Inr []
   \<and> process_domain sample_libs (Some ''http:///www.example.lt'') = Inr (None, Some ''invalid characters'')
   \<and> \<not> scheme_prefixed ''wWw.example.lt''
   \<and> process_domain sample_libs (Some ''wWw.example.lt'') = Inr (Some ''example.lt'', None)
   \<and> tldextract sample_libs ''lrv.lt'' = \<lparr>subdomain = [], domain = ''lrv'', suffix = ''lt''\<rparr>
   \<and> process_domain sample_libs (Some ''https://www.LRV.lt/page'') = Inr (Some ''lrv.lt'', None)"
proof -
  let ?r1 = "'' http://WWW.Example.lt/path.. ''" and ?s1 = "''http://WWW.Example.lt/path''"
  let ?s2 = "''http:///www.example.lt''" and ?s3 = "''wWw.example.lt''"
  have n1: "strip ?r1 \<noteq> [] \<and> ?s1 = rstrip_where (\<lambda>c. c = CHR ''.'') (strip ?r1)" by code_simp
  have n2: "strip ?s2 \<noteq> [] \<and> ?s2 = rstrip_where (\<lambda>c. c = CHR ''.'') (strip ?s2)" by code_simp
  have n3: "strip ?s3 \<noteq> [] \<and> ?s3 = rstrip_where (\<lambda>c. c = CHR ''.'') (strip ?s3)" by code_simp
  have p1: "scheme_prefixed ?s1" unfolding match_scheme_iff [symmetric] by code_simp
  have p2: "scheme_prefixed ?s2" unfolding match_scheme_iff [symmetric] by code_simp
  have p3: "\<not> scheme_prefixed ?s3" unfolding match_scheme_iff [symmetric] by code_simp
  have u1: "urlparse_netloc sample_libs ?s1 = Inr ''WWW.Example.lt''" by code_simp
  have u2: "urlparse_netloc sample_libs ?s2 = Inr []" by code_simp
  have w1: "without_www ''WWW.Example.lt'' = ''Example.lt''"
    unfolding remove_www_eq [symmetric] by code_simp
  have w2: "without_www ?s2 = ?s2" unfolding remove_www_eq [symmetric] by code_simp
  have w3: "without_www ?s3 = ''example.lt''" unfolding remove_www_eq [symmetric] by code_simp
  have a1: "after_normalization sample_libs ''Example.lt'' = Inr (Some ''example.lt'', None)"
    by code_simp
  have a2: "after_normalization sample_libs ?s2 = Inr (None, Some ''invalid characters'')"
    by code_simp
  have a3: "after_normalization sample_libs ''example.lt'' = Inr (Some ''example.lt'', None)"
    by code_simp
  have e: "tldextract sample_libs ''lrv.lt'' = \<lparr>subdomain = [], domain = ''lrv'', suffix = ''lt''\<rparr>"
    by code_simp
  from normalization_order [of ?r1 ?s1 sample_libs "''WWW.Example.lt''"] n1 p1 u1
  have "process_domain sample_libs (Some ?r1) = after_normalization sample_libs (without_www ''WWW.Example.lt'')"
    by blast
  then have r1: "process_domain sample_libs (Some ?r1) = Inr (Some ''example.lt'', None)"
    by (simp only: w1 a1)
  from normalization_order [of ?s2 ?s2 sample_libs] n2 p2 u2
  have "process_domain sample_libs (Some ?s2) = after_normalization sample_libs (without_www ?s2)"
    by blast
  then have r2: "process_domain sample_libs (Some ?s2) = Inr (None, Some ''invalid characters'')"
    by (simp only: w2 a2)
  from normalization_order [of ?s3 ?s3 sample_libs] n3 p3
  have "process_domain sample_libs (Some ?s3) = after_normalization sample_libs (without_www ?s3)"
    by blast
  then have r3: "process_domain sample_libs (Some ?s3) = Inr (Some ''example.lt'', None)"
    by (simp only: w3 a3)
  from normalization_order [of ?r1 ?s1 sample_libs] e
  have r4: "process_domain sample_libs (Some ''https://www.LRV.lt/page'') = Inr (Some ''lrv.lt'', None)"
    by blast
  from n1 p1 u1 w1 r1 p2 u2 r2 p3 r3 e r4 show ?thesis by blast
qed

subsection \<open>Accepted domains\<close>

lemma screen_returns: "screen w = Returns res \<Longrightarrow> fst res = None"
  by (auto simp: screen_def split: if_splits)

lemma screen_not_raises: "screen w \<noteq> Raises e"
  by (simp add: screen_def)

lemma prepare_returns: "prepare L x = Returns res \<Longrightarrow> fst res = None"
  by (auto simp: prepare_def Let_def screen_returns split: if_splits sum.splits)

lemma validate_accepts:
  "validate c = (Some d, r) \<Longrightarrow> d = c \<and> r = None \<and> passes_validators c"
  by (auto simp: validate_eq split: if_splits)

lemma classify_accepts:
  assumes "classify ext = (Some d, r)"
  shows "r = None \<and> passes_validators d \<and> (\<exists>p. d = p @ ''.lt'')"
proof -
  from assms have ne: "domain ext \<noteq> []" "suffix ext \<noteq> []"
    by (auto simp: classify_def split: if_splits)
  show ?thesis
  proof (cases "government_qualified ext")
    case True
    with assms ne have v: "validate (with_subdomain ext) = (Some d, r)"
      by (simp add: classify_government)
    from True have "suffix ext \<in> GOV_SUFFIXES \<or> suffix ext = ''lt''"
      by (auto simp: government_qualified_def)
    then have "\<exists>q. base_domain ext = q @ ''.lt''"
      by (auto simp: GOV_SUFFIXES_def base_domain_def)
    then have "\<exists>p. with_subdomain ext = p @ ''.lt''"
      by (auto simp: with_subdomain_def)
    with validate_accepts [OF v] show ?thesis by blast
  next
    case False
    with assms ne have lt: "suffix ext = ''lt''"
      by (auto simp: classify_def Let_def split: if_splits)
    with assms ne False have v: "validate (base_domain ext) = (Some d, r)"
      by (auto simp: classify_commercial split: if_splits)
    have "base_domain ext = domain ext @ ''.lt''"
      by (simp add: base_domain_def lt)
    with validate_accepts [OF v] show ?thesis by blast
  qed
qed

lemma process_domain_accepts:
  assumes "process_domain L raw = Inr (Some d, r)"
  shows "r = None \<and> passes_validators d \<and> (\<exists>p. d = p @ ''.lt'')"
proof (cases raw)
  case None
  with assms show ?thesis by (simp add: process_domain_def)
next
  case (Some x)
  show ?thesis
  proof (cases "prepare L x")
    case (Raises e)
    with assms Some show ?thesis by (simp add: process_domain_def)
  next
    case (Returns res)
    with assms Some prepare_returns [OF Returns] show ?thesis
      by (auto simp: process_domain_def)
  next
    case (Host h)
    with assms Some have "classify (tldextract L h) = (Some d, r)"
      by (simp add: process_domain_def)
    then show ?thesis by (rule classify_accepts)
  qed
qed

subsection \<open>Lowercasing an accepted domain\<close>

lemma split_nonempty: "split sep s \<noteq> []"
  by (induction s) (auto split: list.splits)

lemma split_lower: "split (CHR ''.'') (lower s) = map lower (split (CHR ''.'') s)"
proof (induction s)
  case Nil
  show ?case by (simp add: lower_def)
next
  case (Cons x xs)
  then have ih: "split (CHR ''.'') (map lower_char xs) = map (map lower_char) (split (CHR ''.'') xs)"
    by (simp add: lower_def [abs_def])
  show ?case
    using split_nonempty [of "CHR ''.''" xs]
    by (cases "split (CHR ''.'') xs") (simp_all add: lower_def [abs_def] ih)
qed

lemma length_loop_lower: "length_loop (map lower ls) = length_loop ls"
  by (induction ls) (simp_all add: lower_def)

lemma leading_hyphen_lower: "leading_hyphen (lower l) = leading_hyphen l"
  by (cases l) (simp_all add: leading_hyphen_def lower_def)

lemma trailing_hyphen_lower: "trailing_hyphen (lower l) = trailing_hyphen l"
  by (cases l rule: rev_cases) (simp_all add: trailing_hyphen_def lower_def)

lemma consecutive_hyphens_Cons:
  "consecutive_hyphens (x # y # ys) =
     ((x = CHR ''-'' \<and> y = CHR ''-'') \<or> consecutive_hyphens (y # ys))"
  by (auto simp: consecutive_hyphens_def)

lemma consecutive_hyphens_lower: "consecutive_hyphens (lower l) = consecutive_hyphens l"
proof (induction l rule: induct_list012)
  case 1
  show ?case by (simp add: lower_def)
next
  case (2 x)
  show ?case by (simp add: lower_def consecutive_hyphens_def)
next
  case (3 x y zs)
  then show ?case by (simp add: lower_def consecutive_hyphens_Cons)
qed

lemma first_hyphen_violation_lower: "first_hyphen_violation (lower l) = first_hyphen_violation l"
  by (simp add: first_hyphen_violation_def leading_hyphen_lower trailing_hyphen_lower
      consecutive_hyphens_lower)

lemma hyphen_loop_lower: "hyphen_loop (map lower ls) = hyphen_loop ls"
  by (induction ls)
     (simp_all add: startswith_hyphen endswith_hyphen contains_two_hyphens
        leading_hyphen_lower trailing_hyphen_lower consecutive_hyphens_lower)

lemma passes_validators_lower: "passes_validators (lower d) = passes_validators d"
  by (simp add: passes_validators_def is_valid_domain_length_def is_valid_hyphen_rules_def
      split_lower length_loop_lower hyphen_loop_lower)

lemma lower_dot_lt: "lower (p @ ''.lt'') = lower p @ ''.lt''"
proof -
  have "lower ''.lt'' = ''.lt''"
    by (simp add: lower_def lower_char_def code_def)
  then show ?thesis by (simp add: lower_def)
qed

subsection \<open>The driver's loop\<close>

lemma error_is_ValueError: "(e :: py_error) = ValueError"
  by (cases e) simp

lemma clean_step_raises:
  "line_raises L line \<Longrightarrow> clean_step L st line = Inl ValueError"
  by (auto simp: line_raises_def clean_step_def raw_line_of_def Let_def isl_def error_is_ValueError)

lemma clean_step_returns:
  assumes "\<not> line_raises L line"
  shows "\<exists>st'. clean_step L st line = Inr st' \<and> cleaned st' = cleaned st \<union> line_domains L line"
proof (cases "strip (raw_line_of line) = []")
  case True
  then show ?thesis
    by (simp add: clean_step_def raw_line_of_def line_domains_def Let_def)
next
  case False
  with assms obtain d reason where
    p: "process_domain L (Some (raw_line_of line)) = Inr (d, reason)"
    by (cases "process_domain L (Some (raw_line_of line))") (auto simp: line_raises_def)
  show ?thesis
  proof (cases d)
    case None
    with False p show ?thesis
      by (simp add: clean_step_def raw_line_of_def [symmetric] line_domains_def Let_def)
  next
    case (Some x)
    with False p show ?thesis
      by (auto simp: clean_step_def raw_line_of_def [symmetric] line_domains_def Let_def)
  qed
qed

lemma clean_loop_raises:
  "\<exists>line\<in>set lines. line_raises L line \<Longrightarrow> clean_loop L lines st = Inl ValueError"
proof (induction lines arbitrary: st)
  case Nil
  then show ?case by simp
next
  case (Cons line rest)
  show ?case
  proof (cases "line_raises L line")
    case True
    then show ?thesis by (simp add: clean_step_raises)
  next
    case False
    with Cons.prems have "\<exists>l\<in>set rest. line_raises L l" by auto
    with Cons.IH clean_step_returns [OF False, of st] show ?thesis by auto
  qed
qed

lemma clean_loop_returns:
  "\<forall>line\<in>set lines. \<not> line_raises L line \<Longrightarrow>
   \<exists>st'. clean_loop L lines st = Inr st' \<and>
         cleaned st' = cleaned st \<union> (\<Union>line\<in>set lines. line_domains L line)"
proof (induction lines arbitrary: st)
  case Nil
  then show ?case by simp
next
  case (Cons line rest)
  from Cons.prems have "\<not> line_raises L line" by simp
  from clean_step_returns [OF this, of st] obtain st1 where
    s: "clean_step L st line = Inr st1" "cleaned st1 = cleaned st \<union> line_domains L line"
    by blast
  from Cons.prems have "\<forall>l\<in>set rest. \<not> line_raises L l" by simp
  from Cons.IH [OF this, of st1] obtain st' where
    "clean_loop L rest st1 = Inr st'"
    "cleaned st' = cleaned st1 \<union> (\<Union>l\<in>set rest. line_domains L l)"
    by blast
  with s show ?case by auto
qed

lemma finite_line_domains: "finite (line_domains L line)"
proof -
  have "line_domains L line \<subseteq>
      (case process_domain L (Some (raw_line_of line)) of
         Inr (Some d, r) \<Rightarrow> {lower d} | _ \<Rightarrow> {})"
    by (auto simp: line_domains_def)
  moreover have "finite (case process_domain L (Some (raw_line_of line)) of
         Inr (Some d, r) \<Rightarrow> {lower d} | _ \<Rightarrow> {})"
    by (auto split: sum.splits option.splits prod.splits)
  ultimately show ?thesis by (rule finite_subset)
qed

lemma clean_domains_raises:
  "\<exists>line\<in>set lines. line_raises L line \<Longrightarrow> clean_domains L lines = Inl ValueError"
  by (simp add: clean_domains_def clean_loop_raises)

lemma clean_domains_returns:
  assumes "\<forall>line\<in>set lines. \<not> line_raises L line"
  shows "\<exists>out. clean_domains L lines = Inr out \<and>
           result_set out = (\<Union>line\<in>set lines. line_domains L line) \<and>
           output_lines out = sorted_list_of_set (\<Union>line\<in>set lines. line_domains L line)"
proof -
  from clean_loop_returns [OF assms, of initial_state] obtain st' where
    "clean_loop L lines initial_state = Inr st'"
    "cleaned st' = (\<Union>line\<in>set lines. line_domains L line)"
    by (auto simp: initial_state_def)
  then show ?thesis by (simp add: clean_domains_def)
qed

lemma line_domains_valid:
  assumes "d \<in> line_domains L line"
  shows "passes_validators d \<and> (\<exists>p. d = p @ ''.lt'')"
proof -
  from assms obtain d0 r where d: "d = lower d0"
    and p: "process_domain L (Some (raw_line_of line)) = Inr (Some d0, r)"
    by (auto simp: line_domains_def)
  from process_domain_accepts [OF p] obtain q where v: "passes_validators d0" and q: "d0 = q @ ''.lt''"
    by blast
  from v have "passes_validators (lower d0)" by (simp add: passes_validators_lower)
  moreover from q have "lower d0 = lower q @ ''.lt''" by (simp add: lower_dot_lt)
  ultimately show ?thesis unfolding d by blast
qed

lemma prepare_example_com: "prepare L ''example.com'' = Host ''example.com''"
  by (simp add: prepare_eval)

lemma clean_domains_no_raise:
  assumes "clean_domains L lines = Inr out"
  shows "\<forall>l\<in>set lines. \<not> line_raises L l"
proof (rule ccontr)
  assume "\<not> (\<forall>l\<in>set lines. \<not> line_raises L l)"
  then have "clean_domains L lines = Inl ValueError"
    by (intro clean_domains_raises) blast
  with assms show False by simp
qed

lemma clean_domains_output_set:
  assumes "clean_domains L lines = Inr out"
  shows "set (output_lines out) = result_set out"
proof -
  from clean_domains_returns [OF clean_domains_no_raise [OF assms]] assms
  have "result_set out = (\<Union>l\<in>set lines. line_domains L l)"
    and "output_lines out = sorted_list_of_set (\<Union>l\<in>set lines. line_domains L l)"
    by auto
  then show ?thesis by (simp add: finite_line_domains)
qed

text \<open>
  Claim C3. A domain that \<open>process_domain\<close> returns passes the length validator and
  the hyphen validator and ends in \<open>.lt\<close>, and so does every member of the result set
  of a run of the driver, which lowercases the domain once more. A line that reaches the
  resolver and is resolved to a registrable domain under a suffix that is neither
  \<open>lt\<close> nor ends in \<open>.lt\<close> is rejected with reason \<open>non-.lt domain\<close>; so is
  \<open>example.com\<close> with a resolver that splits it into \<open>example\<close> and \<open>com\<close>.
\<close>

theorem accepted_domains_valid:
  "(process_domain L raw = Inr (Some d, r) \<longrightarrow>
      r = None \<and> passes_validators d \<and> (\<exists>p. d = p @ ''.lt''))
   \<and> (clean_domains L lines = Inr out \<longrightarrow>
      (\<forall>x\<in>result_set out. passes_validators x \<and> (\<exists>p. x = p @ ''.lt'')))
   \<and> (prepare L line = Host h \<and> tldextract L h = ext \<and> domain ext \<noteq> [] \<and> suffix ext \<noteq> [] \<and>
       suffix ext \<noteq> ''lt'' \<and> \<not> (\<exists>p. suffix ext = p @ ''.lt'') \<longrightarrow>
      process_domain L (Some line) = Inr (None, Some ''non-.lt domain''))
   \<and> (tldextract L ''example.com'' = \<lparr>subdomain = [], domain = ''example'', suffix = ''com''\<rparr> \<longrightarrow>
      process_domain L (Some ''example.com'') = Inr (None, Some ''non-.lt domain''))"
proof (intro conjI impI)
  assume "process_domain L raw = Inr (Some d, r)"
  from process_domain_accepts [OF this]
  show "r = None" "passes_validators d" "\<exists>p. d = p @ ''.lt''" by blast+
next
  assume run: "clean_domains L lines = Inr out"
  have nr: "\<forall>l\<in>set lines. \<not> line_raises L l"
    using run by (rule clean_domains_no_raise)
  from clean_domains_returns [OF nr] run
  have "result_set out = (\<Union>l\<in>set lines. line_domains L l)" by auto
  then show "\<forall>x\<in>result_set out. passes_validators x \<and> (\<exists>p. x = p @ ''.lt'')"
    using line_domains_valid by blast
next
  assume a: "prepare L line = Host h \<and> tldextract L h = ext \<and> domain ext \<noteq> [] \<and> suffix ext \<noteq> [] \<and>
       suffix ext \<noteq> ''lt'' \<and> \<not> (\<exists>p. suffix ext = p @ ''.lt'')"
  then have "suffix ext \<notin> GOV_SUFFIXES"
    by (auto simp: GOV_SUFFIXES_def)
  with a have "classify ext = (None, Some ''non-.lt domain'')"
    by (simp add: classify_def government_qualified_def)
  with a show "process_domain L (Some line) = Inr (None, Some ''non-.lt domain'')"
    by (simp add: process_domain_host)
next
  assume e: "tldextract L ''example.com'' = \<lparr>subdomain = [], domain = ''example'', suffix = ''com''\<rparr>"
  have "classify \<lparr>subdomain = [], domain = ''example'', suffix = ''com''\<rparr>
          = (None, Some ''non-.lt domain'')"
    by code_simp
  then show "process_domain L (Some ''example.com'') = Inr (None, Some ''non-.lt domain'')"
    by (simp add: process_domain_host [OF prepare_example_com] e)
qed

theorem accepted_domains_valid_witness:
  "process_domain sample_libs (Some ''Vilnius.LRV.lt'') = Inr (Some ''vilnius.lrv.lt'', None)
   \<and> passes_validators ''vilnius.lrv.lt''
   \<and> (\<exists>p. ''vilnius.lrv.lt'' = p @ ''.lt'')
   \<and> map_sum id output_lines (clean_domains sample_libs [''Stat.GOV.lt'' @ [LF], ''a.lt'' @ [LF], ''x-.lt''])
       = Inr [''stat.gov.lt'']
   \<and> passes_validators ''stat.gov.lt''
   \<and> (\<exists>p. ''stat.gov.lt'' = p @ ''.lt'')
   \<and> prepare sample_libs ''www.example.com'' = Host ''example.com''
   \<and> tldextract sample_libs ''example.com'' = \<lparr>subdomain = [], domain = ''example'', suffix = ''com''\<rparr>
   \<and> process_domain sample_libs (Some ''www.example.com'') = Inr (None, Some ''non-.lt domain'')
   \<and> process_domain sample_libs (Some ''example.com'') = Inr (None, Some ''non-.lt domain'')"
proof -
  let ?ls = "[''Stat.GOV.lt'' @ [LF], ''a.lt'' @ [LF], ''x-.lt'']"
  let ?ext = "\<lparr>subdomain = [], domain = ''example'', suffix = ''com''\<rparr>"
  have a: "process_domain sample_libs (Some ''Vilnius.LRV.lt'') = Inr (Some ''vilnius.lrv.lt'', None)"
    by code_simp
  have o: "map_sum id output_lines (clean_domains sample_libs ?ls) = Inr [''stat.gov.lt'']"
    by code_simp
  then obtain out where out: "clean_domains sample_libs ?ls = Inr out"
      and ol: "output_lines out = [''stat.gov.lt'']"
    by (cases "clean_domains sample_libs ?ls") auto
  have p: "prepare sample_libs ''www.example.com'' = Host ''example.com''" by code_simp
  have e: "tldextract sample_libs ''example.com'' = ?ext" by code_simp
  have h: "prepare sample_libs ''www.example.com'' = Host ''example.com'' \<and>
      tldextract sample_libs ''example.com'' = ?ext \<and> domain ?ext \<noteq> [] \<and> suffix ?ext \<noteq> [] \<and>
      suffix ?ext \<noteq> ''lt'' \<and> \<not> (\<exists>p. suffix ?ext = p @ ''.lt'')"
    using p e by (simp add: append_eq_Cons_conv)
  from clean_domains_output_set [OF out] ol have m: "''stat.gov.lt'' \<in> result_set out" by auto
  note t = accepted_domains_valid [of sample_libs "Some ''Vilnius.LRV.lt''" "''vilnius.lrv.lt''" None
      ?ls out "''www.example.com''" "''example.com''" ?ext]
  from t a have v1: "passes_validators ''vilnius.lrv.lt''" and s1: "\<exists>p. ''vilnius.lrv.lt'' = p @ ''.lt''"
    by blast+
  from t out m have v2: "passes_validators ''stat.gov.lt''" and s2: "\<exists>p. ''stat.gov.lt'' = p @ ''.lt''"
    by blast+
  from t h have r3: "process_domain sample_libs (Some ''www.example.com'') = Inr (None, Some ''non-.lt domain'')"
    by blast
  from t e have r4: "process_domain sample_libs (Some ''example.com'') = Inr (None, Some ''non-.lt domain'')"
    by blast
  from a v1 s1 o v2 s2 p e r3 r4 show ?thesis by blast
qed

text \<open>
  Claim C8. Two runs of the driver on the same lines in different orders end alike: both
  raise, or both return the same result set and the same output lines. The output lines
  are the members of the result set, each once, in strictly ascending order of the code
  points; every line is smaller than the line after it.
\<close>

theorem clean_domains_order_independent:
  assumes "mset lines' = mset lines"
  shows "(\<forall>e. clean_domains L lines = Inl e \<longrightarrow> clean_domains L lines' = Inl e)
   \<and> (\<forall>out. clean_domains L lines = Inr out \<longrightarrow>
        (\<exists>out'. clean_domains L lines' = Inr out' \<and> result_set out' = result_set out \<and>
                output_lines out' = output_lines out)
        \<and> set (output_lines out) = result_set out \<and> distinct (output_lines out)
        \<and> sorted_wrt (<) (output_lines out) \<and> successively (<) (output_lines out))"
proof -
  from assms have same: "set lines' = set lines" by (rule mset_eq_setD)
  show ?thesis
  proof (cases "\<exists>l\<in>set lines. line_raises L l")
    case True
    then have "clean_domains L lines = Inl ValueError" by (rule clean_domains_raises)
    moreover from True same have "clean_domains L lines' = Inl ValueError"
      by (intro clean_domains_raises) simp
    ultimately show ?thesis by (simp add: error_is_ValueError)
  next
    case False
    let ?A = "\<Union>l\<in>set lines. line_domains L l"
    from False have nr: "\<forall>l\<in>set lines. \<not> line_raises L l" by blast
    then have nr': "\<forall>l\<in>set lines'. \<not> line_raises L l" by (simp add: same)
    from clean_domains_returns [OF nr] obtain out where
      out: "clean_domains L lines = Inr out" "result_set out = ?A"
        "output_lines out = sorted_list_of_set ?A"
      by blast
    from clean_domains_returns [OF nr'] obtain out' where
      out': "clean_domains L lines' = Inr out'" "result_set out' = ?A"
        "output_lines out' = sorted_list_of_set ?A"
      unfolding same by blast
    have fin: "finite ?A" by (simp add: finite_line_domains)
    have strict: "sorted_wrt (<) (sorted_list_of_set ?A)"
      by (rule strict_sorted_list_of_set)
    then have succ: "successively (<) (sorted_list_of_set ?A)"
      by (rule successively_if_sorted_wrt)
    from out out' fin strict succ show ?thesis by simp
  qed
qed

theorem clean_domains_order_independent_witness:
  "mset [''x.com'' @ [LF], ''https://AA.lt/x'' @ [LF], ''bb.lt'' @ [LF], ''  '' @ [LF], ''bb.lt'']
     = mset [''bb.lt'' @ [LF], ''  '' @ [LF], ''https://AA.lt/x'' @ [LF], ''bb.lt'', ''x.com'' @ [LF]]
   \<and> map_sum id output_lines (clean_domains sample_libs
        [''bb.lt'' @ [LF], ''  '' @ [LF], ''https://AA.lt/x'' @ [LF], ''bb.lt'', ''x.com'' @ [LF]])
       = Inr [''aa.lt'', ''bb.lt'']
   \<and> map_sum id output_lines (clean_domains sample_libs
        [''x.com'' @ [LF], ''https://AA.lt/x'' @ [LF], ''bb.lt'' @ [LF], ''  '' @ [LF], ''bb.lt''])
       = Inr [''aa.lt'', ''bb.lt'']
   \<and> successively (<) [''aa.lt'', ''bb.lt'']"
proof -
  let ?ls = "[''bb.lt'' @ [LF], ''  '' @ [LF], ''https://AA.lt/x'' @ [LF], ''bb.lt'', ''x.com'' @ [LF]]"
  let ?ls' = "[''x.com'' @ [LF], ''https://AA.lt/x'' @ [LF], ''bb.lt'' @ [LF], ''  '' @ [LF], ''bb.lt'']"
  have h: "mset ?ls' = mset ?ls" by simp
  have o: "map_sum id output_lines (clean_domains sample_libs ?ls) = Inr [''aa.lt'', ''bb.lt'']"
    by code_simp
  then obtain out where out: "clean_domains sample_libs ?ls = Inr out"
      and ol: "output_lines out = [''aa.lt'', ''bb.lt'']"
    by (cases "clean_domains sample_libs ?ls") auto
  from clean_domains_order_independent [OF h, of sample_libs] out
  obtain out' where "clean_domains sample_libs ?ls' = Inr out'"
      "output_lines out' = output_lines out" and s: "successively (<) (output_lines out)"
    by blast
  then have o': "map_sum id output_lines (clean_domains sample_libs ?ls') = Inr [''aa.lt'', ''bb.lt'']"
    by (simp add: ol)
  from s have s': "successively (<) [''aa.lt'', ''bb.lt'']" by (simp only: ol)
  from h o o' s' show ?thesis by blast
qed

subsection \<open>What the function returns when no library call raises\<close>

text \<open>
  Whenever the function returns, the result is a domain without a reason or a reason of
  the vocabulary without a domain, and the function raises only when the URL parser
  does.
\<close>

lemma validate_shape:
  "validate c = (Some c, None) \<or> (\<exists>reason\<in>validator_reasons. validate c = (None, Some reason))"
  using failing_reason_vocabulary [of c] by (auto simp: validate_eq)

lemma validator_reasons_vocabulary: "validator_reasons \<subseteq> reason_vocabulary"
  by (simp add: validator_reasons_def reason_vocabulary_def)

lemma classify_shape:
  "(\<exists>d. classify ext = (Some d, None)) \<or> (\<exists>reason\<in>reason_vocabulary. classify ext = (None, Some reason))"
proof -
  have v: "\<And>c. (\<exists>d. validate c = (Some d, None)) \<or>
      (\<exists>reason\<in>reason_vocabulary. validate c = (None, Some reason))"
    using validate_shape validator_reasons_vocabulary by blast
  have "''invalid domain/suffix'' \<in> reason_vocabulary" "''non-govt subdomain'' \<in> reason_vocabulary"
    "''non-.lt domain'' \<in> reason_vocabulary"
    by (simp_all add: reason_vocabulary_def)
  with v show ?thesis
    unfolding classify_def Let_def by (simp only: split: if_split) blast
qed

lemma screen_shape:
  "(\<exists>h. screen w = Host h) \<or> (\<exists>reason\<in>reason_vocabulary. screen w = Returns (None, Some reason))"
  by (simp add: screen_def reason_vocabulary_def)

lemma prepare_shape:
  "(\<exists>e. prepare L x = Raises e) \<or> (\<exists>h. prepare L x = Host h) \<or>
   (\<exists>reason\<in>reason_vocabulary. prepare L x = Returns (None, Some reason))"
proof (cases "strip x = []")
  case True
  then show ?thesis by (simp add: prepare_def reason_vocabulary_def)
next
  case False
  show ?thesis
  proof (cases "url_to_netloc L (rstrip_where (\<lambda>c. c = CHR ''.'') (strip x))")
    case (Inl e)
    with False show ?thesis by (simp add: prepare_def)
  next
    case (Inr u)
    with False screen_shape [of "remove_www u"] show ?thesis by (simp add: prepare_def)
  qed
qed

lemma process_domain_shape:
  assumes "process_domain L raw = Inr res"
  shows "(\<exists>d. res = (Some d, None)) \<or> (\<exists>reason\<in>reason_vocabulary. res = (None, Some reason))"
proof (cases raw)
  case None
  with assms show ?thesis by (auto simp: process_domain_def reason_vocabulary_def)
next
  case (Some x)
  from prepare_shape [of L x] show ?thesis
  proof (elim disjE exE bexE)
    fix e assume "prepare L x = Raises e"
    with assms Some show ?thesis by (simp add: process_domain_def)
  next
    fix h assume "prepare L x = Host h"
    with assms Some have "res = classify (tldextract L h)" by (simp add: process_domain_def)
    with classify_shape [of "tldextract L h"] show ?thesis by simp
  next
    fix reason assume "reason \<in> reason_vocabulary" "prepare L x = Returns (None, Some reason)"
    with assms Some show ?thesis by (auto simp: process_domain_def)
  qed
qed

lemma process_domain_raises_iff:
  "(process_domain L raw = Inl e) =
     (\<exists>x. raw = Some x \<and> strip x \<noteq> [] \<and>
        scheme_prefixed (rstrip_where (\<lambda>c. c = CHR ''.'') (strip x)) \<and>
        urlparse_netloc L (rstrip_where (\<lambda>c. c = CHR ''.'') (strip x)) = Inl e)"
proof (cases raw)
  case None
  then show ?thesis by (simp add: process_domain_def)
next
  case (Some x)
  have "(prepare L x = Raises e) =
      (strip x \<noteq> [] \<and> scheme_prefixed (rstrip_where (\<lambda>c. c = CHR ''.'') (strip x)) \<and>
       urlparse_netloc L (rstrip_where (\<lambda>c. c = CHR ''.'') (strip x)) = Inl e)"
  proof (cases "strip x = []")
    case True
    then show ?thesis by (simp add: prepare_def)
  next
    case False
    let ?s = "rstrip_where (\<lambda>c. c = CHR ''.'') (strip x)"
    have "(url_to_netloc L ?s = Inl e) = (scheme_prefixed ?s \<and> urlparse_netloc L ?s = Inl e)"
      by (cases "urlparse_netloc L ?s") (simp_all add: url_to_netloc_def match_scheme_iff)
    moreover have "(prepare L x = Raises e) = (url_to_netloc L ?s = Inl e)"
      using False by (cases "url_to_netloc L ?s") (simp_all add: prepare_def screen_not_raises)
    ultimately show ?thesis using False by simp
  qed
  moreover have "(process_domain L (Some x) = Inl e) = (prepare L x = Raises e)"
    by (cases "prepare L x") (simp_all add: process_domain_def)
  ultimately show ?thesis using Some by simp
qed

subsection \<open>What the address pattern matches\<close>

text \<open>
  The pattern matches the dotted quads, with no check of the range of a group, and a
  dotted quad followed by one line feed: the reason \<open>ip address\<close> is returned
  exactly when the working string is one of the two.
\<close>

lemma not_digit_dot [simp]: "\<not> isdigit (CHR ''.'')"
  by (simp add: isdigit_def code_def)

lemma not_digit_LF [simp]: "\<not> isdigit LF"
  by (simp add: isdigit_def code_def LF_def)

lemma eat_digits_group:
  assumes "digit_group g" and "r = [] \<or> \<not> isdigit (hd r)"
  shows "eat_digits (g @ r) = Some r"
proof -
  from assms(1) have g: "g \<noteq> []" "\<forall>c\<in>set g. isdigit c"
    by (simp_all add: digit_group_def list_all_iff)
  from assms(2) have "takeWhile isdigit r = []" "dropWhile isdigit r = r"
    by (cases r; simp)+
  with g show ?thesis
    by (simp add: eat_digits_def takeWhile_append2 dropWhile_append2)
qed

lemma eat_digits_Some:
  assumes "eat_digits s = Some r"
  shows "\<exists>g. digit_group g \<and> s = g @ r"
proof -
  from assms have "takeWhile isdigit s \<noteq> []" "r = dropWhile isdigit s"
    by (auto simp: eat_digits_def split: if_splits)
  moreover have "list_all isdigit (takeWhile isdigit s)"
    by (simp add: list_all_iff) (meson set_takeWhileD)
  ultimately show ?thesis
    unfolding digit_group_def by (metis takeWhile_dropWhile_id)
qed

lemma eat_dot_digits_Some:
  assumes "eat_dot_digits s = Some r"
  shows "\<exists>g. digit_group g \<and> s = ''.'' @ g @ r"
proof -
  from assms obtain t where "s = CHR ''.'' # t" "eat_digits t = Some r"
    by (auto simp: eat_dot_digits_def split: list.splits if_splits)
  with eat_digits_Some [of t r] show ?thesis by auto
qed

lemma eat_dot_digits_group:
  assumes "digit_group g" and "r = [] \<or> \<not> isdigit (hd r)"
  shows "eat_dot_digits (''.'' @ g @ r) = Some r"
  using eat_digits_group [OF assms] by (simp add: eat_dot_digits_def)

lemma match_ip_rest:
  "match_ip s =
     (\<exists>a b c d r. digit_group a \<and> digit_group b \<and> digit_group c \<and> digit_group d \<and>
        at_dollar r \<and> s = a @ ''.'' @ b @ ''.'' @ c @ ''.'' @ d @ r)"
proof
  assume m: "match_ip s"
  then obtain r1 where 1: "eat_digits s = Some r1"
    by (auto simp: match_ip_def split: option.splits)
  with m obtain r2 where 2: "eat_dot_digits r1 = Some r2"
    by (auto simp: match_ip_def split: option.splits)
  with m 1 obtain r3 where 3: "eat_dot_digits r2 = Some r3"
    by (auto simp: match_ip_def split: option.splits)
  with m 1 2 obtain r4 where 4: "eat_dot_digits r3 = Some r4" and e: "at_dollar r4"
    by (auto simp: match_ip_def split: option.splits)
  from eat_digits_Some [OF 1] obtain a where a: "digit_group a" "s = a @ r1" by blast
  from eat_dot_digits_Some [OF 2] obtain b where b: "digit_group b" "r1 = ''.'' @ b @ r2" by blast
  from eat_dot_digits_Some [OF 3] obtain c where c: "digit_group c" "r2 = ''.'' @ c @ r3" by blast
  from eat_dot_digits_Some [OF 4] obtain d where d: "digit_group d" "r3 = ''.'' @ d @ r4" by blast
  have "s = a @ ''.'' @ b @ ''.'' @ c @ ''.'' @ d @ r4"
    by (simp add: a(2) b(2) c(2) d(2))
  with a(1) b(1) c(1) d(1) e
  show "\<exists>a b c d r. digit_group a \<and> digit_group b \<and> digit_group c \<and> digit_group d \<and>
        at_dollar r \<and> s = a @ ''.'' @ b @ ''.'' @ c @ ''.'' @ d @ r"
    by blast
next
  assume "\<exists>a b c d r. digit_group a \<and> digit_group b \<and> digit_group c \<and> digit_group d \<and>
        at_dollar r \<and> s = a @ ''.'' @ b @ ''.'' @ c @ ''.'' @ d @ r"
  then obtain a b c d r where g: "digit_group a" "digit_group b" "digit_group c" "digit_group d"
      and e: "at_dollar r" and s: "s = a @ ''.'' @ b @ ''.'' @ c @ ''.'' @ d @ r"
    by blast
  from e have r: "r = [] \<or> \<not> isdigit (hd r)" by (auto simp: at_dollar_def)
  have 4: "eat_dot_digits (''.'' @ d @ r) = Some r"
    using g(4) r by (rule eat_dot_digits_group)
  have 3: "eat_dot_digits (''.'' @ c @ ''.'' @ d @ r) = Some (''.'' @ d @ r)"
    using g(3) by (rule eat_dot_digits_group) simp
  have 2: "eat_dot_digits (''.'' @ b @ ''.'' @ c @ ''.'' @ d @ r) = Some (''.'' @ c @ ''.'' @ d @ r)"
    using g(2) by (rule eat_dot_digits_group) simp
  have 1: "eat_digits (a @ ''.'' @ b @ ''.'' @ c @ ''.'' @ d @ r) = Some (''.'' @ b @ ''.'' @ c @ ''.'' @ d @ r)"
    using g(1) by (rule eat_digits_group) simp
  show "match_ip s"
    unfolding s match_ip_def by (simp only: 1 2 3 4 option.case e)
qed

lemma match_ip_iff:
  "match_ip s = (dotted_quad s \<or> (\<exists>t. s = t @ [LF] \<and> dotted_quad t))"
proof -
  have "match_ip s =
     (\<exists>a b c d r. digit_group a \<and> digit_group b \<and> digit_group c \<and> digit_group d \<and>
        (r = [] \<or> r = [LF]) \<and> s = (a @ ''.'' @ b @ ''.'' @ c @ ''.'' @ d) @ r)"
    by (simp add: match_ip_rest at_dollar_def)
  also have "\<dots> = (dotted_quad s \<or> (\<exists>t. s = t @ [LF] \<and> dotted_quad t))"
  proof
    assume "\<exists>a b c d r. digit_group a \<and> digit_group b \<and> digit_group c \<and> digit_group d \<and>
        (r = [] \<or> r = [LF]) \<and> s = (a @ ''.'' @ b @ ''.'' @ c @ ''.'' @ d) @ r"
    then obtain a b c d r where g: "digit_group a \<and> digit_group b \<and> digit_group c \<and> digit_group d"
        and r: "r = [] \<or> r = [LF]" and s: "s = (a @ ''.'' @ b @ ''.'' @ c @ ''.'' @ d) @ r"
      by blast
    from g have q: "dotted_quad (a @ ''.'' @ b @ ''.'' @ c @ ''.'' @ d)"
      unfolding dotted_quad_def by blast
    from r show "dotted_quad s \<or> (\<exists>t. s = t @ [LF] \<and> dotted_quad t)"
    proof
      assume "r = []"
      with q s show ?thesis by simp
    next
      assume "r = [LF]"
      with q s show ?thesis by blast
    qed
  next
    assume "dotted_quad s \<or> (\<exists>t. s = t @ [LF] \<and> dotted_quad t)"
    then obtain t r where t: "dotted_quad t" and r: "r = [] \<or> r = [LF]" and s: "s = t @ r"
      by auto
    from t obtain a b c d where "digit_group a \<and> digit_group b \<and> digit_group c \<and> digit_group d"
        "t = a @ ''.'' @ b @ ''.'' @ c @ ''.'' @ d"
      unfolding dotted_quad_def by blast
    with r s show "\<exists>a b c d r. digit_group a \<and> digit_group b \<and> digit_group c \<and> digit_group d \<and>
        (r = [] \<or> r = [LF]) \<and> s = (a @ ''.'' @ b @ ''.'' @ c @ ''.'' @ d) @ r"
      by blast
  qed
  finally show ?thesis .
qed

lemma validate_not_ip: "validate c \<noteq> (None, Some ''ip address'')"
  using validate_shape [of c] by (auto simp: validator_reasons_def)

lemma classify_not_ip: "classify ext \<noteq> (None, Some ''ip address'')"
  unfolding classify_def Let_def by (simp add: validate_not_ip)

lemma process_domain_ip_address_iff:
  assumes "strip raw \<noteq> []"
    and "url_to_netloc L (rstrip_where (\<lambda>c. c = CHR ''.'') (strip raw)) = Inr u"
  shows "(process_domain L (Some raw) = Inr (None, Some ''ip address'')) =
     (dotted_quad (without_www u) \<or> (\<exists>t. without_www u = t @ [LF] \<and> dotted_quad t))"
proof -
  let ?w = "without_www u"
  from assms have p: "prepare L raw = screen ?w"
    by (simp add: prepare_def remove_www_eq)
  show ?thesis
  proof (cases "match_ip ?w")
    case True
    with p show ?thesis
      by (simp add: process_domain_def screen_def match_ip_iff [symmetric])
  next
    case False
    have "process_domain L (Some raw) \<noteq> Inr (None, Some ''ip address'')"
    proof (cases "match_domain_chars ?w")
      case True
      with False p have "process_domain L (Some raw) = Inr (classify (tldextract L (lower ?w)))"
        by (simp add: process_domain_def screen_def)
      moreover have "classify (tldextract L (lower ?w)) \<noteq> (None, Some ''ip address'')"
        by (rule classify_not_ip)
      ultimately show ?thesis by simp
    next
      case False
      with \<open>\<not> match_ip ?w\<close> p show ?thesis
        by (simp add: process_domain_def screen_def)
    qed
    with False show ?thesis by (simp add: match_ip_iff [symmetric])
  qed
qed

lemma process_domain_quads:
  "process_domain L (Some ''192.168.1.1'') = Inr (None, Some ''ip address'')"
  "process_domain L (Some ''999.999.999.999'') = Inr (None, Some ''ip address'')"
  by (simp_all add: process_domain_def prepare_eval)

subsection \<open>Single lines\<close>

lemma set_rstrip_where: "set (rstrip_where p s) \<subseteq> set s"
proof -
  have "set (dropWhile p (rev s)) \<subseteq> set (rev s)"
    by (auto dest: set_dropWhileD)
  then show ?thesis by (simp add: rstrip_where_def)
qed

lemma set_strip: "set (strip s) \<subseteq> set s"
proof -
  have "set (lstrip_where isspace s) \<subseteq> set s"
    by (auto simp: lstrip_where_def dest: set_dropWhileD)
  with set_rstrip_where [of isspace "lstrip_where isspace s"] show ?thesis
    by (auto simp: strip_def)
qed

lemma set_strip_scheme: "set (strip_scheme url) \<subseteq> set url"
  by (auto simp: strip_scheme_def Let_def dest: in_set_dropD)

lemma set_urlparse_netloc:
  assumes "urlparse_netloc L url = Inr netloc"
  shows "set netloc \<subseteq> set url"
proof -
  let ?u = "strip_scheme (filter (\<lambda>c. \<not> unsafe_url_byte c) (lstrip_where c0_control_or_space url))"
  from assms have "netloc = [] \<or> netloc = splitnetloc ?u 2"
    by (auto simp: urlparse_netloc_def Let_def split: if_splits)
  moreover have "set (splitnetloc ?u 2) \<subseteq> set ?u"
    by (auto simp: splitnetloc_def dest: set_takeWhileD in_set_dropD)
  moreover have "set ?u \<subseteq> set url"
    using set_strip_scheme [of "filter (\<lambda>c. \<not> unsafe_url_byte c) (lstrip_where c0_control_or_space url)"]
    by (auto simp: lstrip_where_def dest: set_dropWhileD)
  ultimately show ?thesis by auto
qed

lemma set_url_to_netloc:
  assumes "url_to_netloc L s = Inr u"
  shows "set u \<subseteq> set s"
proof (cases "match_scheme s")
  case False
  with assms show ?thesis by (simp add: url_to_netloc_def)
next
  case True
  with assms obtain netloc where n: "urlparse_netloc L s = Inr netloc"
      and u: "u = (if netloc \<noteq> [] then netloc else s)"
    by (cases "urlparse_netloc L s") (auto simp: url_to_netloc_def)
  from set_urlparse_netloc [OF n] u show ?thesis by auto
qed

lemma set_without_www: "set (without_www u) \<subseteq> set u"
  by (auto simp: without_www_def dest: in_set_dropD)

lemma working_string_single_line:
  assumes "LF \<notin> set raw"
    and "url_to_netloc L (rstrip_where (\<lambda>c. c = CHR ''.'') (strip raw)) = Inr u"
  shows "LF \<notin> set (without_www u)"
  using assms(1) set_without_www [of u] set_url_to_netloc [OF assms(2)]
    set_rstrip_where [of "\<lambda>c. c = CHR ''.''" "strip raw"] set_strip [of raw]
  by blast

lemma match_ip_single_line: "LF \<notin> set w \<Longrightarrow> match_ip w = dotted_quad w"
  by (auto simp: match_ip_iff)

lemma dotted_quad_three_dots:
  assumes "dotted_quad w"
  shows "3 \<le> length (filter (\<lambda>c. c = CHR ''.'') w)"
proof -
  from assms obtain a b c d where "w = a @ ''.'' @ b @ ''.'' @ c @ ''.'' @ d"
    unfolding dotted_quad_def by blast
  then show ?thesis by simp
qed

lemma process_domain_ip_empty_line:
  "strip raw = [] \<Longrightarrow> process_domain L (Some raw) \<noteq> Inr (None, Some ''ip address'')"
  by (simp add: process_domain_def prepare_def)

lemma process_domain_ip_raises:
  assumes "strip raw \<noteq> []"
    and "url_to_netloc L (rstrip_where (\<lambda>c. c = CHR ''.'') (strip raw)) = Inl e"
  shows "process_domain L (Some raw) \<noteq> Inr (None, Some ''ip address'')"
  using assms by (simp add: process_domain_def prepare_def)

text \<open>
  Claim C6. For a raw line, which holds no line feed, the reason \<open>ip address\<close> is
  returned exactly when the line is not empty after trimming, the URL step returns a
  working string, and that string without its \<open>www.\<close> prefix is made of four groups
  of one or more digits separated by three dots. The value of a group is not looked at:
  \<open>192.168.1.1\<close> and \<open>999.999.999.999\<close> are both rejected with this reason. A
  working string with fewer than three dots is never rejected with it.
\<close>

theorem ip_address_exactly_dotted_quads:
  "(LF \<notin> set raw \<longrightarrow>
      (process_domain L (Some raw) = Inr (None, Some ''ip address'')) =
        (\<exists>u. strip raw \<noteq> [] \<and>
             url_to_netloc L (rstrip_where (\<lambda>c. c = CHR ''.'') (strip raw)) = Inr u \<and>
             dotted_quad (without_www u)))
   \<and> (LF \<notin> set raw \<and> strip raw \<noteq> [] \<and>
       url_to_netloc L (rstrip_where (\<lambda>c. c = CHR ''.'') (strip raw)) = Inr u \<and>
       length (filter (\<lambda>c. c = CHR ''.'') (without_www u)) < 3 \<longrightarrow>
      process_domain L (Some raw) \<noteq> Inr (None, Some ''ip address''))
   \<and> process_domain L (Some ''192.168.1.1'') = Inr (None, Some ''ip address'')
   \<and> process_domain L (Some ''999.999.999.999'') = Inr (None, Some ''ip address'')"
proof (intro conjI impI)
  assume lf: "LF \<notin> set raw"
  let ?s = "rstrip_where (\<lambda>c. c = CHR ''.'') (strip raw)"
  show "(process_domain L (Some raw) = Inr (None, Some ''ip address'')) =
        (\<exists>u. strip raw \<noteq> [] \<and> url_to_netloc L ?s = Inr u \<and> dotted_quad (without_www u))"
  proof (cases "strip raw = []")
    case True
    then show ?thesis by (simp add: process_domain_ip_empty_line)
  next
    case False
    show ?thesis
    proof (cases "url_to_netloc L ?s")
      case (Inl e)
      with False show ?thesis by (simp add: process_domain_ip_raises)
    next
      case (Inr u)
      from working_string_single_line [OF lf Inr] have "LF \<notin> set (without_www u)" .
      then have "\<not> (\<exists>t. without_www u = t @ [LF] \<and> dotted_quad t)" by auto
      with process_domain_ip_address_iff [OF False Inr] False Inr show ?thesis by simp
    qed
  qed
next
  assume a: "LF \<notin> set raw \<and> strip raw \<noteq> [] \<and>
       url_to_netloc L (rstrip_where (\<lambda>c. c = CHR ''.'') (strip raw)) = Inr u \<and>
       length (filter (\<lambda>c. c = CHR ''.'') (without_www u)) < 3"
  then have nq: "\<not> dotted_quad (without_www u)"
    using dotted_quad_three_dots [of "without_www u"] by auto
  from a have "LF \<notin> set raw"
    and "url_to_netloc L (rstrip_where (\<lambda>c. c = CHR ''.'') (strip raw)) = Inr u"
    by simp_all
  then have "LF \<notin> set (without_www u)"
    by (rule working_string_single_line)
  then have "\<not> (\<exists>t. without_www u = t @ [LF] \<and> dotted_quad t)" by auto
  with nq a process_domain_ip_address_iff [of raw L u]
  show "process_domain L (Some raw) \<noteq> Inr (None, Some ''ip address'')" by simp
next
  show "process_domain L (Some ''192.168.1.1'') = Inr (None, Some ''ip address'')"
    by (rule process_domain_quads)
next
  show "process_domain L (Some ''999.999.999.999'') = Inr (None, Some ''ip address'')"
    by (rule process_domain_quads)
qed

theorem ip_address_exactly_dotted_quads_witness:
  "LF \<notin> set '' http://www.10.0.0.256/x.. ''
   \<and> url_to_netloc sample_libs ''http://www.10.0.0.256/x'' = Inr ''www.10.0.0.256''
   \<and> without_www ''www.10.0.0.256'' = ''10.0.0.256''
   \<and> dotted_quad ''10.0.0.256''
   \<and> process_domain sample_libs (Some '' http://www.10.0.0.256/x.. '') = Inr (None, Some ''ip address'')
   \<and> LF \<notin> set ''10.0.1''
   \<and> url_to_netloc sample_libs ''10.0.1'' = Inr ''10.0.1''
   \<and> length (filter (\<lambda>c. c = CHR ''.'') (without_www ''10.0.1'')) < 3
   \<and> process_domain sample_libs (Some ''10.0.1'') \<noteq> Inr (None, Some ''ip address'')"
proof -
  let ?r1 = "'' http://www.10.0.0.256/x.. ''" and ?s1 = "''http://www.10.0.0.256/x''"
  let ?r2 = "''10.0.1''"
  have l1: "LF \<notin> set ?r1" by (simp add: LF_def)
  have l2: "LF \<notin> set ?r2" by (simp add: LF_def)
  have n1: "strip ?r1 \<noteq> []" by code_simp
  have n2: "strip ?r2 \<noteq> []" by code_simp
  have s1: "rstrip_where (\<lambda>c. c = CHR ''.'') (strip ?r1) = ?s1" by code_simp
  have s2: "rstrip_where (\<lambda>c. c = CHR ''.'') (strip ?r2) = ?r2" by code_simp
  have u1: "url_to_netloc sample_libs ?s1 = Inr ''www.10.0.0.256''" by code_simp
  have u2: "url_to_netloc sample_libs ?r2 = Inr ?r2" by code_simp
  have w1: "without_www ''www.10.0.0.256'' = ''10.0.0.256''"
    unfolding remove_www_eq [symmetric] by code_simp
  have w2: "without_www ?r2 = ?r2" unfolding remove_www_eq [symmetric] by code_simp
  have "match_ip ''10.0.0.256''" by code_simp
  then have q: "dotted_quad ''10.0.0.256''"
    by (simp add: match_ip_single_line LF_def)
  have c2: "length (filter (\<lambda>c. c = CHR ''.'') (without_www ?r2)) < 3"
    unfolding w2 by simp
  note t1 = ip_address_exactly_dotted_quads [of ?r1 sample_libs]
  from n1 u1 q have "\<exists>u. strip ?r1 \<noteq> [] \<and>
      url_to_netloc sample_libs (rstrip_where (\<lambda>c. c = CHR ''.'') (strip ?r1)) = Inr u \<and>
      dotted_quad (without_www u)"
    unfolding s1 by (intro exI [of _ "''www.10.0.0.256''"]) (simp only: w1 simp_thms)
  with t1 l1 have r1: "process_domain sample_libs (Some ?r1) = Inr (None, Some ''ip address'')"
    by blast
  have h2: "LF \<notin> set ?r2 \<and> strip ?r2 \<noteq> [] \<and>
      url_to_netloc sample_libs (rstrip_where (\<lambda>c. c = CHR ''.'') (strip ?r2)) = Inr ?r2 \<and>
      length (filter (\<lambda>c. c = CHR ''.'') (without_www ?r2)) < 3"
    using l2 n2 u2 c2 unfolding s2 by blast
  from ip_address_exactly_dotted_quads [of ?r2 sample_libs ?r2] h2
  have r2: "process_domain sample_libs (Some ?r2) \<noteq> Inr (None, Some ''ip address'')"
    by blast
  from l1 u1 w1 q r1 l2 u2 c2 r2 show ?thesis by blast
qed

end
